theory Spec2Isabelle
  imports Main
begin

section \<open>Strings and characters\<close>

text \<open>
  A Python \<open>str\<close> is a sequence of code points. A \<^typ>\<open>char\<close> stands here for one code
  point in the range U+0000 .. U+00FF, and a \<^typ>\<open>string\<close> for a \<open>str\<close> over that
  range. The three classifications below are those of Python 3 on this range:
  \<open>is_space\<close> is what \<open>\s\<close> matches in a \<open>str\<close> pattern and what \<open>str.strip()\<close> removes,
  \<open>is_word\<close> is what \<open>\w\<close> matches, and \<open>lower_char\<close> is \<open>str.lower()\<close> on one
  character.
\<close>

definition is_space :: "char \<Rightarrow> bool" where
  "is_space c = (let n = (of_char c :: nat) in
     (9 \<le> n \<and> n \<le> 13) \<or> (28 \<le> n \<and> n \<le> 32) \<or> n = 133 \<or> n = 160)"

definition is_word :: "char \<Rightarrow> bool" where
  "is_word c = (let n = (of_char c :: nat) in
     (48 \<le> n \<and> n \<le> 57) \<or> (65 \<le> n \<and> n \<le> 90) \<or> n = 95 \<or> (97 \<le> n \<and> n \<le> 122) \<or>
     n = 170 \<or> n = 178 \<or> n = 179 \<or> n = 181 \<or> n = 185 \<or> n = 186 \<or>
     (188 \<le> n \<and> n \<le> 190) \<or> (192 \<le> n \<and> n \<le> 214) \<or> (216 \<le> n \<and> n \<le> 246) \<or>
     (248 \<le> n \<and> n \<le> 255))"

definition lower_char :: "char \<Rightarrow> char" where
  "lower_char c = (let n = (of_char c :: nat) in
     if (65 \<le> n \<and> n \<le> 90) \<or> (192 \<le> n \<and> n \<le> 214) \<or> (216 \<le> n \<and> n \<le> 222)
     then char_of (n + 32) else c)"

text \<open>\<open>re.sub(r'[^\w\s]', '', s)\<close>: every character that is neither a word character
  nor whitespace is deleted.\<close>

definition re_sub_nonword :: "string \<Rightarrow> string" where
  "re_sub_nonword s = filter (\<lambda>c. is_word c \<or> is_space c) s"

text \<open>\<open>s.strip()\<close>: leading and trailing whitespace is removed.\<close>

definition strip :: "string \<Rightarrow> string" where
  "strip s = rev (dropWhile is_space (rev (dropWhile is_space s)))"

text \<open>\<open>s.lower()\<close>.\<close>

definition lower :: "string \<Rightarrow> string" where
  "lower s = map lower_char s"

text \<open>\<open>s.replace(' ', '_')\<close>: each occurrence of the one-character string U+0020.\<close>

definition replace_space :: "string \<Rightarrow> string" where
  "replace_space s = map (\<lambda>c. if c = CHR '' '' then CHR ''_'' else c) s"

section \<open>The identity normalizer\<close>

text \<open>
  \<^verbatim>\<open>
  def normalize_id(label, name):
      if pd.isna(name): return f"{label}_unknown"
      clean_name = re.sub(r'[^\w\s]', '', str(name)).strip().lower().replace(' ', '_')
      return f"{label}_{clean_name}"
  \<close>
  The name is optional: \<open>None\<close> stands for the values on which \<open>pd.isna\<close> answers true
  (Python's \<open>None\<close>, a NaN). On a \<open>str\<close>, also the empty one, \<open>pd.isna\<close> answers false.
\<close>

definition clean_name :: "string \<Rightarrow> string" where
  "clean_name s = replace_space (lower (strip (re_sub_nonword s)))"

definition normalize_id :: "string \<Rightarrow> string option \<Rightarrow> string" where
  "normalize_id lbl nm =
     (case nm of
        None \<Rightarrow> lbl @ ''_unknown''
      | Some s \<Rightarrow> lbl @ ''_'' @ clean_name s)"

subsection \<open>The normalizer as the specification words it\<close>

text \<open>
  The specification's wording of the last step is "replace internal whitespace runs with
  a single underscore". \<open>collapse_ws\<close> does that: a maximal run of whitespace characters
  becomes one underscore. \<open>spec_normalize_id\<close> is the normalizer with this step in the
  place of \<open>replace_space\<close>; it is the specification's reading, not the code's.
\<close>

fun collapse_ws :: "string \<Rightarrow> string" where
  "collapse_ws [] = []"
| "collapse_ws [c] = [if is_space c then CHR ''_'' else c]"
| "collapse_ws (c # d # cs) =
     (if is_space c then (if is_space d then collapse_ws (d # cs) else CHR ''_'' # collapse_ws (d # cs))
      else c # collapse_ws (d # cs))"

definition spec_normalize_id :: "string \<Rightarrow> string \<Rightarrow> string" where
  "spec_normalize_id lbl s = lbl @ ''_'' @ collapse_ws (lower (strip (re_sub_nonword s)))"

text \<open>A string whose whitespace consists of single U+0020 characters, each followed by
  a character that is not whitespace or by the end of the string.\<close>

fun single_spaced :: "string \<Rightarrow> bool" where
  "single_spaced [] = True"
| "single_spaced [c] = (if is_space c then c = CHR '' '' else True)"
| "single_spaced (c # d # cs) =
     ((if is_space c then c = CHR '' '' \<and> \<not> is_space d else True) \<and> single_spaced (d # cs))"

section \<open>The graph merger\<close>

text \<open>
  The extraction's data, as the classes \<open>Node\<close>, \<open>Relationship\<close> and \<open>GraphResponse\<close>
  declare it. A node's name may be missing (a JSON \<open>null\<close>). A relationship's type is one
  of the five literals of the class.
\<close>

record node =
  node_id :: string
  label :: string
  name :: "string option"

datatype rel_kind = HAS_REPORT | HAS_RATING | HAS_CONTENT | HAS_CATEGORY | HAS_THEME

record relationship =
  rel_type :: rel_kind
  start_node_id :: string
  end_node_id :: string

text \<open>
  A partial graph is a dictionary that \<open>merge_graphs\<close> reads with
  \<open>chunk.get('nodes', [])\<close> and \<open>chunk.get('relationships', [])\<close>: a field is \<open>None\<close>
  when the key is absent. An entry of the input list is \<open>None\<close> for a JSON \<open>null\<close>.
\<close>

record graph =
  nodes :: "node list option"
  relationships :: "relationship list option"

definition get_list :: "'a list option \<Rightarrow> 'a list" where
  "get_list v = (case v of None \<Rightarrow> [] | Some xs \<Rightarrow> xs)"

text \<open>
  A Python dictionary keeps its keys in the order of their first insertion; assigning to a
  key that is present replaces the value and leaves the key at its place.
\<close>

fun dict_set :: "('k \<times> 'v) list \<Rightarrow> 'k \<Rightarrow> 'v \<Rightarrow> ('k \<times> 'v) list" where
  "dict_set [] k v = [(k, v)]"
| "dict_set ((k', v') # d) k v =
     (if k' = k then (k, v) # d else (k', v') # dict_set d k v)"

definition dict_values :: "('k \<times> 'v) list \<Rightarrow> 'v list" where
  "dict_values d = map snd d"

text \<open>\<open>id_map.get(k, k)\<close>\<close>

definition get_or_self :: "(string \<rightharpoonup> string) \<Rightarrow> string \<Rightarrow> string" where
  "get_or_self id_map k = (case id_map k of None \<Rightarrow> k | Some v \<Rightarrow> v)"

text \<open>
  \<^verbatim>\<open>
  for node in chunk.get('nodes', []):
      old_id = node['id']
      new_id = normalize_id(node['label'], node['name'])
      id_map[old_id] = new_id
      combined_nodes[new_id] = {"id": new_id, "label": node['label'], "name": node['name']}
  \<close>
\<close>

fun node_loop ::
  "node list \<Rightarrow> (string \<rightharpoonup> string) \<Rightarrow> (string \<times> node) list
     \<Rightarrow> (string \<rightharpoonup> string) \<times> (string \<times> node) list" where
  "node_loop [] id_map combined_nodes = (id_map, combined_nodes)"
| "node_loop (n # ns) id_map combined_nodes =
     (let old_id = node_id n;
          new_id = normalize_id (label n) (name n)
      in node_loop ns (id_map(old_id \<mapsto> new_id))
           (dict_set combined_nodes new_id \<lparr>node_id = new_id, label = label n, name = name n\<rparr>))"

text \<open>
  \<^verbatim>\<open>
  for rel in chunk.get('relationships', []):
      start_id = id_map.get(rel['start_node_id'], rel['start_node_id'])
      end_id = id_map.get(rel['end_node_id'], rel['end_node_id'])
      combined_relationships.append({"type": rel['type'], "start_node_id": start_id, "end_node_id": end_id})
  \<close>
\<close>

fun rel_loop ::
  "relationship list \<Rightarrow> (string \<rightharpoonup> string) \<Rightarrow> relationship list \<Rightarrow> relationship list" where
  "rel_loop [] id_map combined_relationships = combined_relationships"
| "rel_loop (r # rs) id_map combined_relationships =
     (let start_id = get_or_self id_map (start_node_id r);
          end_id = get_or_self id_map (end_node_id r)
      in rel_loop rs id_map
           (combined_relationships @
              [\<lparr>rel_type = rel_type r, start_node_id = start_id, end_node_id = end_id\<rparr>]))"

text \<open>
  The loop over the partial graphs. \<open>if not chunk: continue\<close> skips a \<open>None\<close> and an
  empty dictionary; every other chunk gets a fresh \<open>id_map\<close>, filled by the loop over
  its nodes before its relationships are read.
\<close>

fun chunk_loop ::
  "graph option list \<Rightarrow> (string \<times> node) list \<Rightarrow> relationship list
     \<Rightarrow> (string \<times> node) list \<times> relationship list" where
  "chunk_loop [] combined_nodes combined_relationships = (combined_nodes, combined_relationships)"
| "chunk_loop (None # rest) combined_nodes combined_relationships =
     chunk_loop rest combined_nodes combined_relationships"
| "chunk_loop (Some chunk # rest) combined_nodes combined_relationships =
     (if nodes chunk = None \<and> relationships chunk = None
      then chunk_loop rest combined_nodes combined_relationships
      else
        (case node_loop (get_list (nodes chunk)) Map.empty combined_nodes of
           (id_map, combined_nodes') \<Rightarrow>
             chunk_loop rest combined_nodes'
               (rel_loop (get_list (relationships chunk)) id_map combined_relationships)))"

text \<open>
  \<^verbatim>\<open>
  unique_rels = []
  seen_rels = set()
  for r in combined_relationships:
      rel_tuple = (r['type'], r['start_node_id'], r['end_node_id'])
      if rel_tuple not in seen_rels:
          seen_rels.add(rel_tuple)
          unique_rels.append(r)
  \<close>
\<close>

definition rel_tuple :: "relationship \<Rightarrow> rel_kind \<times> string \<times> string" where
  "rel_tuple r = (rel_type r, start_node_id r, end_node_id r)"

fun dedup_loop ::
  "relationship list \<Rightarrow> relationship list \<Rightarrow> (rel_kind \<times> string \<times> string) set
     \<Rightarrow> relationship list" where
  "dedup_loop [] unique_rels seen_rels = unique_rels"
| "dedup_loop (r # rs) unique_rels seen_rels =
     (if rel_tuple r \<notin> seen_rels
      then dedup_loop rs (unique_rels @ [r]) (insert (rel_tuple r) seen_rels)
      else dedup_loop rs unique_rels seen_rels)"

definition merge_graphs :: "graph option list \<Rightarrow> graph" where
  "merge_graphs raw_data_list =
     (case chunk_loop raw_data_list [] [] of
        (combined_nodes, combined_relationships) \<Rightarrow>
          \<lparr>nodes = Some (dict_values combined_nodes),
           relationships = Some (dedup_loop combined_relationships [] {})\<rparr>)"

subsection \<open>Notions the properties of the merger are stated with\<close>

text \<open>The nodes and the relationships of a graph, and those a list entry contributes,
  in their order.\<close>

definition nodes_of :: "graph \<Rightarrow> node list" where
  "nodes_of g = get_list (nodes g)"

definition rels_of :: "graph \<Rightarrow> relationship list" where
  "rels_of g = get_list (relationships g)"

definition chunk_nodes :: "graph option \<Rightarrow> node list" where
  "chunk_nodes c = (case c of None \<Rightarrow> [] | Some g \<Rightarrow> nodes_of g)"

definition chunk_rels :: "graph option \<Rightarrow> relationship list" where
  "chunk_rels c = (case c of None \<Rightarrow> [] | Some g \<Rightarrow> rels_of g)"

text \<open>All nodes of the input, in input order.\<close>

definition all_nodes :: "graph option list \<Rightarrow> node list" where
  "all_nodes gs = concat (map chunk_nodes gs)"

text \<open>The identifier \<open>merge_graphs\<close> gives a node, and the node it stores for it.\<close>

definition new_id :: "node \<Rightarrow> string" where
  "new_id n = normalize_id (label n) (name n)"

definition normalized :: "node \<Rightarrow> node" where
  "normalized n = \<lparr>node_id = new_id n, label = label n, name = name n\<rparr>"

text \<open>One assignment \<open>combined_nodes[new_id] = {...}\<close>.\<close>

definition insert_node :: "(string \<times> node) list \<Rightarrow> node \<Rightarrow> (string \<times> node) list" where
  "insert_node d n = dict_set d (new_id n) (normalized n)"

text \<open>The batch-local map of a list entry: \<open>id_map\<close> as the loop over its nodes leaves it.\<close>

definition chunk_id_map :: "graph option \<Rightarrow> (string \<rightharpoonup> string)" where
  "chunk_id_map c = fst (node_loop (chunk_nodes c) Map.empty [])"

text \<open>A relationship with both endpoints sent through a map, an identifier the map does
  not know left as it is.\<close>

definition rewrite :: "(string \<rightharpoonup> string) \<Rightarrow> relationship \<Rightarrow> relationship" where
  "rewrite m r =
     \<lparr>rel_type = rel_type r,
      start_node_id = (case m (start_node_id r) of None \<Rightarrow> start_node_id r | Some i \<Rightarrow> i),
      end_node_id = (case m (end_node_id r) of None \<Rightarrow> end_node_id r | Some i \<Rightarrow> i)\<rparr>"

text \<open>The list \<open>combined_relationships\<close> as the loop over the partial graphs leaves it:
  the rewritten relationships, before duplicates are removed.\<close>

definition combined_relationships_of :: "graph option list \<Rightarrow> relationship list" where
  "combined_relationships_of gs = snd (chunk_loop gs [] [])"

subsection \<open>Example inputs of the merger\<close>

text \<open>Two batches that each mention the company Acme, under different batch-local
  identifiers; the second batch spells the name in capitals. The first batch states one
  relationship twice, the second states it again under its own identifiers and has a
  relationship to an identifier that no node carries.\<close>

definition acme_first :: graph where
  "acme_first =
     \<lparr>nodes = Some [\<lparr>node_id = ''1'', label = ''Company'', name = Some ''Acme''\<rparr>,
                    \<lparr>node_id = ''2'', label = ''Rating'', name = Some ''A''\<rparr>],
      relationships = Some [\<lparr>rel_type = HAS_RATING, start_node_id = ''1'', end_node_id = ''2''\<rparr>,
                            \<lparr>rel_type = HAS_RATING, start_node_id = ''1'', end_node_id = ''2''\<rparr>]\<rparr>"

definition acme_second :: graph where
  "acme_second =
     \<lparr>nodes = Some [\<lparr>node_id = ''7'', label = ''Company'', name = Some ''ACME''\<rparr>,
                    \<lparr>node_id = ''3'', label = ''Rating'', name = Some ''A''\<rparr>],
      relationships = Some [\<lparr>rel_type = HAS_REPORT, start_node_id = ''7'', end_node_id = ''99''\<rparr>,
                            \<lparr>rel_type = HAS_RATING, start_node_id = ''7'', end_node_id = ''3''\<rparr>]\<rparr>"

definition acme_batches :: "graph option list" where
  "acme_batches = [Some acme_first, Some acme_second]"

section \<open>The extraction pipeline\<close>

text \<open>
  The table read from the CSV file is a list of rows in file order; the index label of a
  row is its position (\<open>read_csv\<close> numbers the rows from 0). A row is the list of its
  cells in column order, each with the column's name. A cell is \<open>None\<close> where
  \<open>pd.notna\<close> answers false, and otherwise holds the text that the f-string
  \<open>f"{col}: {val}"\<close> writes for its value.
\<close>

type_synonym row = "(string \<times> string option) list"

type_synonym dataframe = "row list"

definition newline :: char where
  "newline = CHR 0x0A"

text \<open>\<open>sep.join(parts)\<close>\<close>

fun join :: "string \<Rightarrow> string list \<Rightarrow> string" where
  "join sep [] = []"
| "join sep [x] = x"
| "join sep (x # y # zs) = x @ sep @ join sep (y # zs)"

text \<open>The decimal numeral of a natural number, as \<open>str\<close> and the f-string write it.\<close>

definition digit :: "nat \<Rightarrow> char" where
  "digit d = char_of (48 + d)"

fun str_nat :: "nat \<Rightarrow> string" where
  "str_nat n = (if n < 10 then [digit n] else str_nat (n div 10) @ [digit (n mod 10)])"

declare str_nat.simps [simp del]

text \<open>
  \<^verbatim>\<open>
  row_text = " / ".join([f"{col}: {val}" for col, val in row.items() if pd.notna(val)])
  \<close>
\<close>

definition present_cells :: "row \<Rightarrow> (string \<times> string) list" where
  "present_cells r = concat (map (\<lambda>(col, val). case val of None \<Rightarrow> [] | Some v \<Rightarrow> [(col, v)]) r)"

definition cell_text :: "string \<times> string \<Rightarrow> string" where
  "cell_text cv = fst cv @ '': '' @ snd cv"

definition row_text :: "row \<Rightarrow> string" where
  "row_text r = join '' / '' (map cell_text (present_cells r))"

text \<open>\<open>df.iloc[i : i + b]\<close> with \<open>iterrows()\<close>: the rows at the positions \<open>i\<close> to
  \<open>i + b - 1\<close> that exist, each with its index label.\<close>

definition iloc_rows :: "dataframe \<Rightarrow> nat \<Rightarrow> nat \<Rightarrow> (nat \<times> row) list" where
  "iloc_rows df i b = zip [i..<i + length (take b (drop i df))] (take b (drop i df))"

text \<open>
  \<^verbatim>\<open>
  batch_text = ""
  for idx, row in batch_df.iterrows():
      row_text = ...
      batch_text += f"[Row {idx+1}]\n{row_text}\n\n"
  \<close>
\<close>

fun text_loop :: "(nat \<times> row) list \<Rightarrow> string \<Rightarrow> string" where
  "text_loop [] batch_text = batch_text"
| "text_loop ((idx, r) # rest) batch_text =
     text_loop rest
       (batch_text @ ''[Row '' @ str_nat (idx + 1) @ '']'' @ [newline] @ row_text r @ [newline, newline])"

definition batch_text :: "dataframe \<Rightarrow> nat \<Rightarrow> nat \<Rightarrow> string" where
  "batch_text df i b = text_loop (iloc_rows df i b) []"

text \<open>
  The structured-extraction collaborator. \<open>chain.invoke\<close> either raises (\<open>Inl\<close>, with the
  exception's message) or returns a \<open>GraphResponse\<close>. Its answer is not determined by the
  text alone, so the collaborator is a function of the batch's start index and the text.
  \<open>response.dict()\<close> is a dictionary with both keys.
\<close>

record graph_response =
  resp_nodes :: "node list"
  resp_relationships :: "relationship list"

type_synonym chain = "nat \<Rightarrow> string \<Rightarrow> string + graph_response"

definition response_dict :: "graph_response \<Rightarrow> graph" where
  "response_dict response =
     \<lparr>nodes = Some (resp_nodes response), relationships = Some (resp_relationships response)\<rparr>"

text \<open>
  The state of the run: the list \<open>all_raw_graphs\<close>, the checkpoint file, the final output
  file, the record of the calls of \<open>chain.invoke\<close> made so far, each with the loop index
  \<open>i\<close> and the text submitted, and the indices of the batches that the handler reported
  as failed.

  The checkpoint file is absent, holds a list of partial graphs, or is damaged: opened for
  writing, so emptied, and not written to its end. Writing the checkpoint is an action on
  the environment with three outcomes: the list is written; \<open>open\<close> raises and the file
  is as it was; \<open>json.dump\<close> raises and the file is damaged. The outcome is a function of
  the batch's start index.
\<close>

datatype file_state = Absent | Content "graph option list" | Damaged

datatype write_outcome = Written | OpenRaises string | DumpRaises string

type_synonym writer = "nat \<Rightarrow> write_outcome"

record run_state =
  all_raw_graphs :: "graph option list"
  checkpoint_file :: file_state
  final_output_file :: "graph option"
  invocations :: "(nat \<times> string) list"
  failed_batches :: "nat list"

text \<open>
  One turn of the loop:
  \<^verbatim>\<open>
  try:
      response = chain.invoke({"input_text": batch_text})
      all_raw_graphs.append(response.dict())
      with open(CHECKPOINT_FILE, "w", encoding="utf-8") as f:
          json.dump(all_raw_graphs, f, ensure_ascii=False)
  except Exception as e:
      print(...); time.sleep(5)
  \<close>
  The list is appended to before the file is opened, inside the same \<open>try\<close>: if the write
  raises, the handler reports the batch as failed and its partial graph stays in the list.
\<close>

definition process_batch ::
  "chain \<Rightarrow> writer \<Rightarrow> dataframe \<Rightarrow> nat \<Rightarrow> nat \<Rightarrow> run_state \<Rightarrow> run_state" where
  "process_batch invoke write df b i st =
     (let batch_text = batch_text df i b;
          st1 = st\<lparr>invocations := invocations st @ [(i, batch_text)]\<rparr>
      in case invoke i batch_text of
           Inl e \<Rightarrow> st1\<lparr>failed_batches := failed_batches st1 @ [i]\<rparr>
         | Inr response \<Rightarrow>
             (let st2 = st1\<lparr>all_raw_graphs := all_raw_graphs st1 @ [Some (response_dict response)]\<rparr>
              in case write i of
                   Written \<Rightarrow> st2\<lparr>checkpoint_file := Content (all_raw_graphs st2)\<rparr>
                 | OpenRaises e \<Rightarrow> st2\<lparr>failed_batches := failed_batches st2 @ [i]\<rparr>
                 | DumpRaises e \<Rightarrow>
                     st2\<lparr>checkpoint_file := Damaged,
                         failed_batches := failed_batches st2 @ [i]\<rparr>))"

text \<open>\<open>range(start, stop, step)\<close> for a positive step. (Python raises \<open>ValueError\<close> for
  the step 0; the source's step is the constant \<open>BATCH_SIZE = 5\<close>.)\<close>

function py_range :: "nat \<Rightarrow> nat \<Rightarrow> nat \<Rightarrow> nat list" where
  "py_range i stop step =
     (if step = 0 \<or> stop \<le> i then [] else i # py_range (i + step) stop step)"
  by pat_completeness auto
termination
  by (relation "measure (\<lambda>(i, stop, step). stop - i)") auto

declare py_range.simps [simp del]

fun batch_loop ::
  "chain \<Rightarrow> writer \<Rightarrow> dataframe \<Rightarrow> nat \<Rightarrow> nat list \<Rightarrow> run_state \<Rightarrow> run_state" where
  "batch_loop invoke write df b [] st = st"
| "batch_loop invoke write df b (i # rest) st =
     batch_loop invoke write df b rest (process_batch invoke write df b i st)"

text \<open>
  The main program for a table \<open>df\<close>, a batch size \<open>b\<close> and the checkpoint file found at
  the start. Nothing is done for an empty table. Otherwise the checkpoint is loaded if the
  file exists (\<open>json.load\<close> raises on a damaged file, outside any \<open>try\<close>), the loop runs
  from \<open>processed_count\<close>, and the merged graph is written. The loop and its start are
  functions of the loaded list, \<open>None\<close> where there was no file.
\<close>

definition BATCH_SIZE :: nat where
  "BATCH_SIZE = 5"

definition load_checkpoint :: "graph option list option \<Rightarrow> run_state" where
  "load_checkpoint loaded =
     \<lparr>all_raw_graphs = (case loaded of None \<Rightarrow> [] | Some graphs \<Rightarrow> graphs),
      checkpoint_file = (case loaded of None \<Rightarrow> Absent | Some graphs \<Rightarrow> Content graphs),
      final_output_file = None, invocations = [], failed_batches = []\<rparr>"

definition processed_count :: "graph option list option \<Rightarrow> nat \<Rightarrow> nat" where
  "processed_count loaded b = (case loaded of None \<Rightarrow> 0 | Some graphs \<Rightarrow> length graphs * b)"

definition batch_starts :: "graph option list option \<Rightarrow> dataframe \<Rightarrow> nat \<Rightarrow> nat list" where
  "batch_starts loaded df b = py_range (processed_count loaded b) (length df) b"

definition run_batches ::
  "chain \<Rightarrow> writer \<Rightarrow> dataframe \<Rightarrow> nat \<Rightarrow> graph option list option \<Rightarrow> run_state" where
  "run_batches invoke write df b loaded =
     batch_loop invoke write df b (batch_starts loaded df b) (load_checkpoint loaded)"

definition finish :: "run_state \<Rightarrow> run_state" where
  "finish st = st\<lparr>final_output_file := Some (merge_graphs (all_raw_graphs st))\<rparr>"

definition extraction_main ::
  "chain \<Rightarrow> writer \<Rightarrow> dataframe \<Rightarrow> nat \<Rightarrow> file_state \<Rightarrow> string + run_state" where
  "extraction_main invoke write df b file =
     (if df = [] then
        Inr \<lparr>all_raw_graphs = [], checkpoint_file = file, final_output_file = None,
             invocations = [], failed_batches = []\<rparr>
      else
        (case file of
           Absent \<Rightarrow> Inr (finish (run_batches invoke write df b None))
         | Content graphs \<Rightarrow> Inr (finish (run_batches invoke write df b (Some graphs)))
         | Damaged \<Rightarrow> Inl ''JSONDecodeError''))"

subsection \<open>Notions the properties of the pipeline are stated with\<close>




text \<open>The lines of a text: the pieces between its newline characters.\<close>

fun lines_of :: "string \<Rightarrow> string list" where
  "lines_of [] = [[]]"
| "lines_of (c # cs) =
     (if c = newline then [] # lines_of cs
      else (case lines_of cs of [] \<Rightarrow> [[c]] | l # ls \<Rightarrow> (c # l) # ls))"

text \<open>The header of a row, the text the row contributes, and its three lines.\<close>

definition row_header :: "nat \<Rightarrow> string" where
  "row_header idx = ''[Row '' @ str_nat (idx + 1) @ '']''"

definition row_block :: "nat \<times> row \<Rightarrow> string" where
  "row_block p = row_header (fst p) @ [newline] @ row_text (snd p) @ [newline, newline]"

definition row_lines :: "nat \<times> row \<Rightarrow> string list" where
  "row_lines p = [row_header (fst p), row_text (snd p), []]"

definition no_newline :: "row \<Rightarrow> bool" where
  "no_newline r = (\<forall>cv \<in> set (present_cells r). newline \<notin> set (fst cv) \<and> newline \<notin> set (snd cv))"

text \<open>A row without its missing cells.\<close>

definition drop_missing :: "row \<Rightarrow> row" where
  "drop_missing r = filter (\<lambda>cell. snd cell \<noteq> None) r"

subsection \<open>Example inputs of the pipeline\<close>

definition esg_table :: dataframe where
  "esg_table =
     [[(''Company'', Some ''Acme''), (''Rating'', Some ''A''), (''Note'', None)],
      [(''Company'', Some ''NetApp Inc.''), (''Rating'', None), (''Note'', Some ''ok'')],
      [(''Company'', Some ''Initech''), (''Rating'', Some ''B''), (''Note'', None)]]"

text \<open>A table of twelve rows.\<close>

definition esg_table_long :: dataframe where
  "esg_table_long = esg_table @ esg_table @ esg_table @ esg_table"

definition acme_response :: graph_response where
  "acme_response =
     \<lparr>resp_nodes = [\<lparr>node_id = ''1'', label = ''Company'', name = Some ''Acme''\<rparr>],
      resp_relationships = []\<rparr>"

text \<open>A collaborator that answers the batch starting at row 10 and fails on every other,
  and one that answers every batch.\<close>

definition answers_at_ten :: chain where
  "answers_at_ten i txt = (if i = 10 then Inr acme_response else Inl ''timeout'')"


text \<open>An environment in which every checkpoint write succeeds, and one in which the file
  cannot be opened during the batch starting at row 5.\<close>

definition writes_all :: writer where
  "writes_all i = Written"


text \<open>A table with a value that holds a newline, as a quoted cell of a CSV file may.\<close>

definition two_line_table :: dataframe where
  "two_line_table = [[(''Company'', Some ''Acme''), (''Note'', Some [CHR ''a'', CHR 0x0A, CHR ''b''])]]"

section \<open>The query gateway\<close>

text \<open>
  \<^verbatim>\<open>
  def generate_answer(client, retriever, user_question):
      try:
          result = retriever.search(query_text=str(user_question))
          cypher_used = result.metadata.get("cypher", "")
          items = getattr(result, 'items', [])
          if not items:
              return None, cypher_used
          context = "\n".join([str(i) for i in items])
          response = client.chat.completions.create(...)
          return response.choices[0].message.content, cypher_used
      except Exception as e:
          return f"<error prefix>{str(e)}", "Error"
  \<close>
  An exception is an instance of class \<open>Exception\<close> whose \<open>str(e)\<close> returns a text, an
  instance of class \<open>Exception\<close> whose \<open>__str__\<close> raises an exception in its turn, or an
  exception outside class \<open>Exception\<close> (\<open>KeyboardInterrupt\<close>, \<open>SystemExit\<close>), given by
  its name. The handler catches class \<open>Exception\<close> only, and evaluates \<open>str(e)\<close> outside
  the \<open>try\<close>.

  The two collaborators either raise (\<open>Inl\<close>) or return. The retriever's result has a
  metadata dictionary, which may be \<open>None\<close>, and the records found, each as the text
  \<open>str(i)\<close>; the field is \<open>None\<close> where the attribute is absent. The completion is the
  list of its choices, each the content of its message, which may be \<open>None\<close>. The client
  is given the question and the context, from which the source builds the messages.
\<close>

datatype exn =
    Exception string
  | Unprintable exn
  | BaseException string

record retriever_result =
  metadata :: "(string \<rightharpoonup> string) option"
  items :: "string list option"

type_synonym retriever = "string \<Rightarrow> exn + retriever_result"

type_synonym chat_client = "string \<Rightarrow> string \<Rightarrow> exn + string option list"

text \<open>The prefix of the error answer, a cross mark and a text in Korean, written by the
  bytes of its UTF-8 encoding.\<close>

definition error_prefix :: string where
  "error_prefix =
     [CHR 0xE2, CHR 0x9D, CHR 0x8C, CHR 0x20, CHR 0xEB, CHR 0xB6, CHR 0x84, CHR 0xEC, CHR 0x84,
      CHR 0x9D, CHR 0x20, CHR 0xEC, CHR 0xA4, CHR 0x91, CHR 0x20, CHR 0xEC, CHR 0x98, CHR 0xA4,
      CHR 0xEB, CHR 0xA5, CHR 0x98, CHR 0x20, CHR 0xEB, CHR 0xB0, CHR 0x9C, CHR 0xEC, CHR 0x83,
      CHR 0x9D, CHR 0x3A, CHR 0x20]"

text \<open>\<open>result.metadata.get("cypher", "")\<close>\<close>

definition get_cypher :: "(string \<rightharpoonup> string) \<Rightarrow> string" where
  "get_cypher md = (case md ''cypher'' of None \<Rightarrow> [] | Some c \<Rightarrow> c)"

text \<open>The texts of the two exceptions that the body itself raises: \<open>AttributeError\<close> for
  \<open>None.get\<close>, and \<open>IndexError\<close> for \<open>choices[0]\<close> on an empty list.\<close>

definition no_get_text :: string where
  "no_get_text =
     [CHR 0x27] @ ''NoneType'' @ [CHR 0x27] @ '' object has no attribute '' @
     [CHR 0x27] @ ''get'' @ [CHR 0x27]"

definition no_index_text :: string where
  "no_index_text = ''list index out of range''"

text \<open>The body of the \<open>try\<close>: \<open>Inl\<close> is an exception raised in it.\<close>

definition try_body :: "chat_client \<Rightarrow> retriever \<Rightarrow> string \<Rightarrow> exn + (string option \<times> string)" where
  "try_body client retriever user_question =
     (case retriever user_question of
        Inl e \<Rightarrow> Inl e
      | Inr result \<Rightarrow>
          (case metadata result of
             None \<Rightarrow> Inl (Exception no_get_text)
           | Some md \<Rightarrow>
               (let cypher_used = get_cypher md;
                    records = get_list (items result)
                in if records = [] then Inr (None, cypher_used)
                   else
                     (let context = join [newline] records
                      in case client user_question context of
                           Inl e \<Rightarrow> Inl e
                         | Inr choices \<Rightarrow>
                             (case choices of
                                [] \<Rightarrow> Inl (Exception no_index_text)
                              | content # _ \<Rightarrow> Inr (content, cypher_used))))))"

text \<open>The handler \<open>except Exception as e\<close> with its \<open>return\<close>. An exception outside class
  \<open>Exception\<close> is not caught; one whose \<open>__str__\<close> raises makes the handler raise.\<close>

fun handler :: "exn \<Rightarrow> exn + (string option \<times> string)" where
  "handler (Exception message) = Inr (Some (error_prefix @ message), ''Error'')"
| "handler (Unprintable raised) = Inl raised"
| "handler (BaseException kind) = Inl (BaseException kind)"

definition generate_answer ::
  "chat_client \<Rightarrow> retriever \<Rightarrow> string \<Rightarrow> exn + (string option \<times> string)" where
  "generate_answer client retriever user_question =
     (case try_body client retriever user_question of
        Inl e \<Rightarrow> handler e
      | Inr answer \<Rightarrow> Inr answer)"

subsection \<open>Notions the properties of the gateway are stated with\<close>

text \<open>An exception of class \<open>Exception\<close> whose text can be taken.\<close>

fun printable :: "exn \<Rightarrow> bool" where
  "printable (Exception message) = True"
| "printable (Unprintable raised) = False"
| "printable (BaseException kind) = False"

subsection \<open>Example collaborators of the gateway\<close>

definition company_query :: string where
  "company_query = ''MATCH (c:Company) RETURN c.name''"

definition finds_nothing :: retriever where
  "finds_nothing q = Inr \<lparr>metadata = Some [''cypher'' \<mapsto> company_query], items = Some []\<rparr>"

definition finds_one :: retriever where
  "finds_one q = Inr \<lparr>metadata = Some [''cypher'' \<mapsto> company_query], items = Some [''NetApp'']\<rparr>"

definition store_down :: retriever where
  "store_down q = Inl (Exception ''connection refused'')"

definition interrupted :: retriever where
  "interrupted q = Inl (BaseException ''KeyboardInterrupt'')"

definition client_down :: chat_client where
  "client_down q context = Inl (Exception ''rate limit'')"

section \<open>The graph loader\<close>

text \<open>
  The graph the writer is given, as \<open>main\<close> builds it from the consolidated graph file:
  a node's properties are the entries of its dictionary beside \<open>id\<close> and \<open>label\<close>, a
  relationship's are those beside its three fields. A property value is \<open>None\<close> for a
  JSON \<open>null\<close>.
\<close>

record neo4j_node =
  nid :: string
  nlabel :: string
  nproperties :: "(string \<times> string option) list"

record neo4j_relationship =
  rstart :: string
  rend :: string
  rtype :: rel_kind
  rproperties :: "(string \<times> string option) list"

record neo4j_graph =
  gnodes :: "neo4j_node list"
  grelationships :: "neo4j_relationship list"

definition graph_obj :: "graph \<Rightarrow> neo4j_graph" where
  "graph_obj data =
     \<lparr>gnodes = map (\<lambda>n. \<lparr>nid = node_id n, nlabel = label n, nproperties = [(''name'', name n)]\<rparr>)
                 (get_list (nodes data)),
      grelationships =
        map (\<lambda>rel. \<lparr>rstart = start_node_id rel, rend = end_node_id rel, rtype = rel_type rel,
                      rproperties = []\<rparr>)
            (get_list (relationships data))\<rparr>"

subsection \<open>The graph store\<close>

text \<open>
  Modelled from the spec: the graph store and the effect of the statements the writer
  sends to it with \<open>session.run\<close>. The database engine that executes them is not part of
  the repository. Following section 4.4 of the specification: constraint setup is
  "create if not exists" and changes no data; the node statement is "MERGE
  (match-or-create) a node keyed by (label, id), then set/overwrite all other
  properties"; the relationship statement is "match both endpoint nodes by id (regardless
  of their label), then MERGE an edge of the given type between them, setting
  properties", and does nothing where an endpoint is absent.

  A stored node has labels and properties; a stored relationship joins two stored nodes,
  named by their positions in the store. Nothing is ever deleted. Setting a property to
  \<open>None\<close> removes it.
\<close>

record db_node =
  labels :: "string list"
  properties :: "string \<rightharpoonup> string"

record db_rel =
  rel_from :: nat
  rel_kind_of :: rel_kind
  rel_to :: nat
  rel_properties :: "string \<rightharpoonup> string"

record store =
  store_nodes :: "db_node list"
  store_rels :: "db_rel list"

text \<open>Modelled from the spec: \<open>SET x += $props\<close>, "set/overwrite all other properties".\<close>

fun set_props :: "(string \<times> string option) list \<Rightarrow> (string \<rightharpoonup> string) \<Rightarrow> (string \<rightharpoonup> string)" where
  "set_props [] m = m"
| "set_props ((k, v) # ps) m = set_props ps (m(k := v))"

text \<open>Modelled from the spec: the pattern \<open>(n:`label` {id: $id})\<close>, "keyed by (label, id)".\<close>

definition matches :: "neo4j_node \<Rightarrow> db_node \<Rightarrow> bool" where
  "matches p x = (nlabel p \<in> set (labels x) \<and> properties x ''id'' = Some (nid p))"

definition created :: "neo4j_node \<Rightarrow> db_node" where
  "created p = \<lparr>labels = [nlabel p], properties = [''id'' \<mapsto> nid p]\<rparr>"

definition upd :: "neo4j_node \<Rightarrow> db_node \<Rightarrow> db_node" where
  "upd p x = (if matches p x then x\<lparr>properties := set_props (nproperties p) (properties x)\<rparr> else x)"

text \<open>Modelled from the spec: \<open>MERGE (n:`label` {id: $id}) SET n += $props\<close>. If no stored
  node matches, one is created; every matching node gets the properties.\<close>

definition merge_node :: "neo4j_node \<Rightarrow> db_node list \<Rightarrow> db_node list" where
  "merge_node p ns =
     map (upd p) (if list_ex (matches p) ns then ns else ns @ [created p])"

text \<open>Modelled from the spec: \<open>MATCH (a {id: $start_id}), (b {id: $end_id})\<close>. The pairs of
  stored nodes, by position, with the two identifiers, whatever their labels.\<close>

definition with_id :: "db_node list \<Rightarrow> string \<Rightarrow> nat list" where
  "with_id ns i = filter (\<lambda>k. properties (ns ! k) ''id'' = Some i) [0..<length ns]"

definition endpoint_pairs :: "db_node list \<Rightarrow> neo4j_relationship \<Rightarrow> (nat \<times> nat) list" where
  "endpoint_pairs ns r = List.product (with_id ns (rstart r)) (with_id ns (rend r))"

text \<open>Modelled from the spec: \<open>MERGE (a)-[r:`type`]->(b) SET r += $props\<close> for one pair. If
  no stored relationship of the type joins the pair, one is created; every such
  relationship gets the properties.\<close>

definition joins :: "neo4j_relationship \<Rightarrow> nat \<times> nat \<Rightarrow> db_rel \<Rightarrow> bool" where
  "joins r ab e = (rel_from e = fst ab \<and> rel_kind_of e = rtype r \<and> rel_to e = snd ab)"

definition merge_pair :: "neo4j_relationship \<Rightarrow> db_rel list \<Rightarrow> nat \<times> nat \<Rightarrow> db_rel list" where
  "merge_pair r es ab =
     map (\<lambda>e. if joins r ab e then e\<lparr>rel_properties := set_props (rproperties r) (rel_properties e)\<rparr>
               else e)
       (if list_ex (joins r ab) es then es
        else es @ [\<lparr>rel_from = fst ab, rel_kind_of = rtype r, rel_to = snd ab,
                    rel_properties = Map.empty\<rparr>])"

definition merge_rel :: "db_node list \<Rightarrow> db_rel list \<Rightarrow> neo4j_relationship \<Rightarrow> db_rel list" where
  "merge_rel ns es r = foldl (merge_pair r) es (endpoint_pairs ns r)"

subsection \<open>The writer\<close>

text \<open>
  \<^verbatim>\<open>
  self._prepare_db()
  with self.driver.session(database=self.neo4j_database) as session:
      for node in graph.nodes:
          cypher = f"MERGE (n:`{node.label}` {{id: $id}}) SET n += $props"
          session.run(cypher, {"id": node.id, "props": node.properties})
      for rel in graph.relationships:
          cypher = f"""MATCH (a {{id: $start_id}}), (b {{id: $end_id}})
                       MERGE (a)-[r:`{rel.type}`]->(b)
                       SET r += $props"""
          session.run(cypher, {...})
  return KGWriterModel(status="SUCCESS", metadata={"nodes": len(graph.nodes), "rels": len(graph.relationships)})
  \<close>
  The store answers every statement; the writer's result is then \<open>SUCCESS\<close> with the two
  counts. All nodes are written before the first relationship.
\<close>

record writer_result =
  status :: string
  written_nodes :: nat
  written_rels :: nat

definition write_nodes :: "neo4j_node list \<Rightarrow> db_node list \<Rightarrow> db_node list" where
  "write_nodes ps ns = foldl (\<lambda>ns p. merge_node p ns) ns ps"

definition write_rels :: "neo4j_relationship list \<Rightarrow> db_node list \<Rightarrow> db_rel list \<Rightarrow> db_rel list" where
  "write_rels rs ns es = foldl (merge_rel ns) es rs"

definition run :: "neo4j_graph \<Rightarrow> store \<Rightarrow> writer_result \<times> store" where
  "run g s =
     (let ns = write_nodes (gnodes g) (store_nodes s);
          es = write_rels (grelationships g) ns (store_rels s)
      in (\<lparr>status = ''SUCCESS'', written_nodes = length (gnodes g),
           written_rels = length (grelationships g)\<rparr>,
          \<lparr>store_nodes = ns, store_rels = es\<rparr>))"

text \<open>Loading a consolidated graph into a store: the store afterwards.\<close>

definition load :: "graph \<Rightarrow> store \<Rightarrow> store" where
  "load data s = snd (run (graph_obj data) s)"

subsection \<open>Notions the properties of the loader are stated with\<close>

text \<open>All updates of a list of nodes, applied to one stored node in order.\<close>

definition upd_all :: "neo4j_node list \<Rightarrow> db_node \<Rightarrow> db_node" where
  "upd_all ps x = foldl (\<lambda>x p. upd p x) x ps"

text \<open>A function on property maps that sets fixed keys to fixed values and leaves the
  other keys as they are.\<close>

definition overrides :: "((string \<rightharpoonup> string) \<Rightarrow> (string \<rightharpoonup> string)) \<Rightarrow> bool" where
  "overrides f = (\<exists>K V. \<forall>m k. f m k = (if k \<in> K then V k else m k))"

text \<open>The property updates of the nodes that match a stored node, composed in order.\<close>

fun matching_updates :: "neo4j_node list \<Rightarrow> db_node \<Rightarrow> (string \<rightharpoonup> string) \<Rightarrow> (string \<rightharpoonup> string)" where
  "matching_updates [] x m = m"
| "matching_updates (p # ps) x m =
     matching_updates ps x (if matches p x then set_props (nproperties p) m else m)"

definition empty_store :: store where
  "empty_store = \<lparr>store_nodes = [], store_rels = []\<rparr>"

text \<open>The number of stored nodes with a label and an identifier, and of stored
  relationships of a type between two identifiers.\<close>

definition count_nodes :: "store \<Rightarrow> string \<Rightarrow> string \<Rightarrow> nat" where
  "count_nodes s l i =
     length (filter (\<lambda>x. l \<in> set (labels x) \<and> properties x ''id'' = Some i) (store_nodes s))"

definition count_rels :: "store \<Rightarrow> rel_kind \<Rightarrow> string \<Rightarrow> string \<Rightarrow> nat" where
  "count_rels s t a b =
     length (filter (\<lambda>e. rel_kind_of e = t
                          \<and> properties (store_nodes s ! rel_from e) ''id'' = Some a
                          \<and> properties (store_nodes s ! rel_to e) ''id'' = Some b)
               (store_rels s))"

section \<open>Properties of the identity normalizer\<close>

lemma strip_all_space:
  "\<forall>c \<in> set s. is_space c \<Longrightarrow> strip s = []"
proof -
  assume a: "\<forall>c \<in> set s. is_space c"
  then have h: "dropWhile is_space s = []" by (induction s) auto
  show ?thesis unfolding strip_def h by simp
qed

lemma is_space_blank: "is_space (CHR '' '')"
  by (simp add: is_space_def)

lemma replace_space_Cons:
  "replace_space (c # cs) = (if c = CHR '' '' then CHR ''_'' else c) # replace_space cs"
  by (simp add: replace_space_def)

lemma replace_space_Nil: "replace_space [] = []"
  by (simp add: replace_space_def)

lemma replace_space_collapse:
  "single_spaced t \<Longrightarrow> replace_space t = collapse_ws t"
proof (induction t rule: collapse_ws.induct)
  case 1
  show ?case by (simp add: replace_space_Nil)
next
  case (2 c)
  show ?case
  proof (cases "is_space c")
    case True
    with "2.prems" have "c = CHR '' ''" by simp
    with True show ?thesis by (simp add: replace_space_Cons replace_space_Nil)
  next
    case False
    then have "c \<noteq> CHR '' ''" using is_space_blank by blast
    with False show ?thesis by (simp add: replace_space_Cons replace_space_Nil)
  qed
next
  case (3 c d cs)
  from "3.prems" have tl: "single_spaced (d # cs)" by (simp only: single_spaced.simps)
  show ?case
  proof (cases "is_space c")
    case True
    with "3.prems" have c: "c = CHR '' ''" and d: "\<not> is_space d"
      by simp_all
    from "3.IH"(2) [OF True d tl] have ih: "replace_space (d # cs) = collapse_ws (d # cs)" .
    have "replace_space (c # d # cs) = CHR ''_'' # replace_space (d # cs)"
      unfolding replace_space_Cons [of c] using c by simp
    also have "\<dots> = collapse_ws (c # d # cs)" using True d ih by simp
    finally show ?thesis .
  next
    case False
    then have ne: "c \<noteq> CHR '' ''" using is_space_blank by blast
    from "3.IH"(3) [OF False tl] have ih: "replace_space (d # cs) = collapse_ws (d # cs)" .
    have "replace_space (c # d # cs) = c # replace_space (d # cs)"
      unfolding replace_space_Cons [of c] using ne by simp
    also have "\<dots> = collapse_ws (c # d # cs)" using False ih by simp
    finally show ?thesis .
  qed
qed

text \<open>
  C4. A missing name gives the label followed by \<open>_unknown\<close>, for every label. An empty
  name is not missing for the code: it gives the label followed by \<open>_\<close> alone, and so does
  every name without a word character.
\<close>

theorem normalize_id_nameless:
  "normalize_id lbl None = lbl @ ''_unknown''
   \<and> normalize_id lbl (Some '''') = lbl @ ''_''
   \<and> ((\<forall>c \<in> set s. \<not> is_word c) \<longrightarrow> normalize_id lbl (Some s) = lbl @ ''_'')"
proof -
  have e: "clean_name s = []" if h: "\<forall>c \<in> set s. \<not> is_word c"
  proof -
    from h have "\<forall>c \<in> set (re_sub_nonword s). is_space c"
      by (auto simp: re_sub_nonword_def)
    then have "strip (re_sub_nonword s) = []" by (rule strip_all_space)
    then show ?thesis by (simp add: clean_name_def lower_def replace_space_def)
  qed
  have n: "clean_name '''' = []"
    by (simp add: clean_name_def lower_def replace_space_def strip_def re_sub_nonword_def)
  show ?thesis
  proof (intro conjI impI)
    show "normalize_id lbl None = lbl @ ''_unknown''" by (simp add: normalize_id_def)
    show "normalize_id lbl (Some '''') = lbl @ ''_''" by (simp add: normalize_id_def n)
    show "normalize_id lbl (Some s) = lbl @ ''_''" if "\<forall>c \<in> set s. \<not> is_word c"
      using e [OF that] by (simp add: normalize_id_def)
  qed
qed

theorem normalize_id_nameless_witness:
  "normalize_id ''Rating'' None = ''Rating_unknown''
   \<and> normalize_id ''Rating'' (Some '''') = ''Rating_''
   \<and> normalize_id ''Rating'' (Some '' ?! '') = ''Rating_''"
proof -
  have h: "\<forall>c \<in> set '' ?! ''. \<not> is_word c" by code_simp
  note t = normalize_id_nameless [of "''Rating''" "'' ?! ''"]
  from t have a: "normalize_id ''Rating'' None = ''Rating'' @ ''_unknown''" by (elim conjE)
  from t have b: "normalize_id ''Rating'' (Some '''') = ''Rating'' @ ''_''" by (elim conjE)
  from t h have c: "normalize_id ''Rating'' (Some '' ?! '') = ''Rating'' @ ''_''"
    by (elim conjE) (erule (1) mp)
  from a b c show ?thesis by simp
qed

theorem normalize_id_empty_counterexample:
  "\<not> (\<forall>lbl name. (name = None \<or> name = Some '''') \<longrightarrow>
        normalize_id lbl name = lbl @ ''_unknown'')"
proof
  assume "\<forall>lbl name. (name = None \<or> name = Some '''') \<longrightarrow>
        normalize_id lbl name = lbl @ ''_unknown''"
  then have "normalize_id ''Company'' (Some '''') = ''Company'' @ ''_unknown''" by blast
  moreover have "normalize_id ''Company'' (Some '''') = ''Company_''" by code_simp
  ultimately show False by simp
qed

text \<open>
  C5. For a name that is not missing the identifier is the label, an underscore and the
  cleaned name: characters that are neither word characters nor whitespace deleted, the
  result trimmed and lowercased, and each U+0020 replaced by an underscore. No U+0020 is
  left. Where the trimmed, lowercased name has only single U+0020 characters as
  whitespace, this is the specification's normalizer, which turns each whitespace run
  into one underscore. \<open>NetApp Inc.\<close> and \<open>netapp inc\<close> get the same identifier.
\<close>

theorem normalize_id_named:
  "normalize_id lbl (Some s) = lbl @ ''_'' @ replace_space (lower (strip (re_sub_nonword s)))
   \<and> CHR '' '' \<notin> set (clean_name s)
   \<and> (single_spaced (lower (strip (re_sub_nonword s))) \<longrightarrow>
        normalize_id lbl (Some s) = spec_normalize_id lbl s)
   \<and> normalize_id ''Company'' (Some ''NetApp Inc.'') = normalize_id ''Company'' (Some ''netapp inc'')"
proof -
  have a: "normalize_id lbl (Some s) = lbl @ ''_'' @ replace_space (lower (strip (re_sub_nonword s)))"
    by (simp add: normalize_id_def clean_name_def)
  have "CHR '' '' \<notin> set (replace_space t)" for t
    by (induction t) (simp_all add: replace_space_Nil replace_space_Cons)
  then have b: "CHR '' '' \<notin> set (clean_name s)"
    unfolding clean_name_def .
  have c: "normalize_id lbl (Some s) = spec_normalize_id lbl s"
    if "single_spaced (lower (strip (re_sub_nonword s)))"
    unfolding a spec_normalize_id_def replace_space_collapse [OF that] ..
  have d: "normalize_id ''Company'' (Some ''NetApp Inc.'') = normalize_id ''Company'' (Some ''netapp inc'')"
    by code_simp
  show ?thesis
  proof (intro conjI impI)
    show "normalize_id lbl (Some s) = lbl @ ''_'' @ replace_space (lower (strip (re_sub_nonword s)))"
      by (rule a)
    show "CHR '' '' \<notin> set (clean_name s)" by (rule b)
    show "normalize_id lbl (Some s) = spec_normalize_id lbl s"
      if "single_spaced (lower (strip (re_sub_nonword s)))" using that by (rule c)
    show "normalize_id ''Company'' (Some ''NetApp Inc.'') = normalize_id ''Company'' (Some ''netapp inc'')"
      by (rule d)
  qed
qed

theorem normalize_id_named_witness:
  "normalize_id ''Company'' (Some ''NetApp Inc.'') = ''Company_netapp_inc''
   \<and> single_spaced (lower (strip (re_sub_nonword ''NetApp Inc.'')))
   \<and> normalize_id ''Company'' (Some ''NetApp Inc.'') = spec_normalize_id ''Company'' ''NetApp Inc.''"
proof -
  have h: "single_spaced (lower (strip (re_sub_nonword ''NetApp Inc.'')))" by code_simp
  have v: "normalize_id ''Company'' (Some ''NetApp Inc.'') = ''Company_netapp_inc''" by code_simp
  from normalize_id_named [of "''Company''" "''NetApp Inc.''"] h
  have "normalize_id ''Company'' (Some ''NetApp Inc.'') = spec_normalize_id ''Company'' ''NetApp Inc.''"
    by (elim conjE) (erule (1) mp)
  with h v show ?thesis by (intro conjI)
qed

theorem normalize_id_runs_counterexample:
  "\<not> (\<forall>lbl s. s \<noteq> [] \<longrightarrow> normalize_id lbl (Some s) = spec_normalize_id lbl s)"
proof
  assume "\<forall>lbl s. s \<noteq> [] \<longrightarrow> normalize_id lbl (Some s) = spec_normalize_id lbl s"
  then have "''Net  App'' \<noteq> [] \<longrightarrow>
     normalize_id ''Company'' (Some ''Net  App'') = spec_normalize_id ''Company'' ''Net  App''"
    by (elim allE)
  then have "normalize_id ''Company'' (Some ''Net  App'') = spec_normalize_id ''Company'' ''Net  App''"
    by simp
  moreover have "normalize_id ''Company'' (Some ''Net  App'') = ''Company_net__app''" by code_simp
  moreover have "spec_normalize_id ''Company'' ''Net  App'' = ''Company_net_app''" by code_simp
  ultimately show False by simp
qed

section \<open>Properties of the graph merger\<close>

subsection \<open>The dictionary of nodes\<close>

lemma map_of_dict_set: "map_of (dict_set d k v) = (map_of d)(k \<mapsto> v)"
  by (induction d k v rule: dict_set.induct) (auto simp: fun_eq_iff)

lemma keys_dict_set:
  "map fst (dict_set d k v) = (if k \<in> fst ` set d then map fst d else map fst d @ [k])"
  by (induction d k v rule: dict_set.induct) auto

lemma set_dict_set: "set (dict_set d k v) \<subseteq> insert (k, v) (set d)"
  by (induction d k v rule: dict_set.induct) auto

lemma dict_set_fresh: "k \<notin> fst ` set d \<Longrightarrow> dict_set d k v = d @ [(k, v)]"
  by (induction d k v rule: dict_set.induct) auto

lemma distinct_dict_set: "distinct (map fst d) \<Longrightarrow> distinct (map fst (dict_set d k v))"
  by (auto simp: keys_dict_set)

lemma filter_key_single:
  "distinct (map fst d) \<Longrightarrow> map_of d k = Some v \<Longrightarrow> filter (\<lambda>p. fst p = k) d = [(k, v)]"
proof (induction d)
  case Nil
  then show ?case by simp
next
  case (Cons p d)
  show ?case
  proof (cases "fst p = k")
    case True
    with Cons.prems have v: "snd p = v" by (cases p) simp
    from True Cons.prems have "k \<notin> fst ` set d" by auto
    then have "filter (\<lambda>p. fst p = k) d = []" by (auto simp: filter_empty_conv)
    with True v show ?thesis by (cases p) simp
  next
    case False
    with Cons show ?thesis by (cases p) auto
  qed
qed

lemma new_id_normalized: "new_id (normalized n) = new_id n"
  by (simp add: new_id_def normalized_def)

lemma node_id_normalized: "node_id (normalized n) = new_id n"
  by (simp add: normalized_def)

lemma normalized_fixed: "node_id n = new_id n \<Longrightarrow> normalized n = n"
  by (simp add: normalized_def)

lemma foldl_insert_map_of:
  "map_of (foldl insert_node d ns) k =
     (if filter (\<lambda>x. new_id x = k) ns = [] then map_of d k
      else Some (normalized (last (filter (\<lambda>x. new_id x = k) ns))))"
  by (induction ns rule: rev_induct) (simp_all add: insert_node_def map_of_dict_set)

lemma foldl_insert_distinct:
  "distinct (map fst d) \<Longrightarrow> distinct (map fst (foldl insert_node d ns))"
  by (induction ns rule: rev_induct) (simp_all add: insert_node_def distinct_dict_set)

lemma foldl_insert_keys:
  "fst ` set (foldl insert_node d ns) = fst ` set d \<union> new_id ` set ns"
proof (induction ns rule: rev_induct)
  case Nil
  show ?case by simp
next
  case (snoc n ns)
  have "fst ` set (dict_set e k v) = insert k (fst ` set e)" for e :: "(string \<times> node) list" and k v
    using keys_dict_set [of e k v] by (metis (no_types, lifting) insert_absorb list.set_map
        set_append list.simps(15) Un_insert_right sup_bot.right_neutral empty_set)
  with snoc show ?case by (simp add: insert_node_def)
qed

lemma foldl_insert_inv:
  "\<forall>p \<in> set d. node_id (snd p) = fst p \<and> new_id (snd p) = fst p \<Longrightarrow>
   \<forall>p \<in> set (foldl insert_node d ns). node_id (snd p) = fst p \<and> new_id (snd p) = fst p"
proof (induction ns rule: rev_induct)
  case Nil
  then show ?case by simp
next
  case (snoc n ns)
  let ?e = "foldl insert_node d ns"
  have "set (insert_node ?e n) \<subseteq> insert (new_id n, normalized n) (set ?e)"
    unfolding insert_node_def by (rule set_dict_set)
  with snoc show ?case
    by (auto simp: new_id_normalized node_id_normalized)
qed

lemma foldl_insert_fresh:
  "distinct (map new_id ns) \<Longrightarrow> fst ` set d \<inter> new_id ` set ns = {} \<Longrightarrow>
   foldl insert_node d ns = d @ map (\<lambda>n. (new_id n, normalized n)) ns"
proof (induction ns arbitrary: d)
  case Nil
  show ?case by simp
next
  case (Cons n ns)
  from Cons.prems have fresh: "new_id n \<notin> fst ` set d" by auto
  then have step: "insert_node d n = d @ [(new_id n, normalized n)]"
    by (simp add: insert_node_def dict_set_fresh)
  from Cons.prems have "fst ` set (d @ [(new_id n, normalized n)]) \<inter> new_id ` set ns = {}"
    by auto
  with Cons.IH [of "d @ [(new_id n, normalized n)]"] Cons.prems step
  show ?case by simp
qed

subsection \<open>The loops\<close>

lemma node_loop_snd: "snd (node_loop ns m d) = foldl insert_node d ns"
  by (induction ns arbitrary: m d)
     (simp_all add: insert_node_def new_id_def normalized_def Let_def)

lemma node_loop_fst:
  "fst (node_loop ns m d) = foldl (\<lambda>m n. m(node_id n \<mapsto> new_id n)) m ns"
  by (induction ns arbitrary: m d) (simp_all add: new_id_def Let_def)

lemma chunk_id_map_eq:
  "fst (node_loop (chunk_nodes c) Map.empty d) = chunk_id_map c"
  by (simp add: chunk_id_map_def node_loop_fst)

lemma rel_loop_eq: "rel_loop rs m acc = acc @ map (rewrite m) rs"
  by (induction rs arbitrary: acc) (simp_all add: rewrite_def get_or_self_def Let_def)

lemma chunk_loop_eq:
  "chunk_loop gs cn cr =
     (foldl insert_node cn (all_nodes gs),
      cr @ concat (map (\<lambda>c. map (rewrite (chunk_id_map c)) (chunk_rels c)) gs))"
proof (induction gs cn cr rule: chunk_loop.induct)
  case (1 cn cr)
  show ?case by (simp add: all_nodes_def)
next
  case (2 rest cn cr)
  then show ?case by (simp add: all_nodes_def chunk_nodes_def chunk_rels_def)
next
  case (3 chunk rest cn cr)
  show ?case
  proof (cases "nodes chunk = None \<and> relationships chunk = None")
    case True
    with 3(1) show ?thesis
      by (simp add: all_nodes_def chunk_nodes_def chunk_rels_def nodes_of_def rels_of_def get_list_def)
  next
    case False
    obtain m cn' where nl: "node_loop (get_list (nodes chunk)) Map.empty cn = (m, cn')"
      by (cases "node_loop (get_list (nodes chunk)) Map.empty cn") blast
    have ns: "get_list (nodes chunk) = chunk_nodes (Some chunk)"
      by (simp add: chunk_nodes_def nodes_of_def)
    have rs: "get_list (relationships chunk) = chunk_rels (Some chunk)"
      by (simp add: chunk_rels_def rels_of_def)
    from nl have m: "m = chunk_id_map (Some chunk)"
      using chunk_id_map_eq [of "Some chunk" cn] by (simp add: ns)
    from nl have cn': "cn' = foldl insert_node cn (chunk_nodes (Some chunk))"
      using node_loop_snd [of "get_list (nodes chunk)" Map.empty cn] by (simp add: ns)
    have "chunk_loop (Some chunk # rest) cn cr =
        chunk_loop rest cn' (rel_loop (get_list (relationships chunk)) m cr)"
      unfolding chunk_loop.simps if_not_P [OF False] nl by simp
    also have "\<dots> = (foldl insert_node cn' (all_nodes rest),
        rel_loop (get_list (relationships chunk)) m cr @
        concat (map (\<lambda>c. map (rewrite (chunk_id_map c)) (chunk_rels c)) rest))"
      by (rule 3(2) [OF False nl [symmetric]])
    finally show ?thesis
      by (simp add: all_nodes_def rel_loop_eq m cn' rs)
  qed
qed

subsection \<open>What \<open>merge_graphs\<close> returns\<close>

lemma nodes_of_merge:
  "nodes_of (merge_graphs gs) = map snd (foldl insert_node [] (all_nodes gs))"
  by (simp add: merge_graphs_def chunk_loop_eq nodes_of_def get_list_def dict_values_def)

lemma combined_relationships_eq:
  "combined_relationships_of gs =
     concat (map (\<lambda>c. map (rewrite (chunk_id_map c)) (chunk_rels c)) gs)"
  by (simp add: combined_relationships_of_def chunk_loop_eq)

lemma rels_of_merge:
  "rels_of (merge_graphs gs) = dedup_loop (combined_relationships_of gs) [] {}"
  by (simp add: merge_graphs_def combined_relationships_of_def rels_of_def get_list_def
      split: prod.splits)

lemma merged_nodes_inv:
  "\<forall>p \<in> set (foldl insert_node [] ns). node_id (snd p) = fst p \<and> new_id (snd p) = fst p"
  by (rule foldl_insert_inv) simp

lemma merged_node_ids:
  "map node_id (nodes_of (merge_graphs gs)) = map fst (foldl insert_node [] (all_nodes gs))"
  using merged_nodes_inv [of "all_nodes gs"] by (simp add: nodes_of_merge)

text \<open>
  C1. The nodes of the output have pairwise different identifiers, and these are the
  normalized identifiers of the input's nodes. For every node of the input, the output
  holds exactly one node under its normalized identifier: the last node of the input, in
  input order, that normalizes to this identifier, with its label and its name.
\<close>

theorem merge_graphs_last_seen_wins:
  "distinct (map node_id (nodes_of (merge_graphs gs)))
   \<and> set (map node_id (nodes_of (merge_graphs gs))) = new_id ` set (all_nodes gs)
   \<and> (\<forall>n \<in> set (all_nodes gs).
        filter (\<lambda>m. node_id m = new_id n) (nodes_of (merge_graphs gs)) =
          [normalized (last (filter (\<lambda>x. new_id x = new_id n) (all_nodes gs)))])"
proof (intro conjI ballI)
  let ?d = "foldl insert_node [] (all_nodes gs)"
  have dist: "distinct (map fst ?d)" by (rule foldl_insert_distinct) simp
  then show "distinct (map node_id (nodes_of (merge_graphs gs)))"
    by (simp only: merged_node_ids)
  show "set (map node_id (nodes_of (merge_graphs gs))) = new_id ` set (all_nodes gs)"
    using foldl_insert_keys [of "[]" "all_nodes gs"] by (simp add: merged_node_ids)
  fix n assume n: "n \<in> set (all_nodes gs)"
  let ?same = "filter (\<lambda>x. new_id x = new_id n) (all_nodes gs)"
  from n have "?same \<noteq> []" by (auto simp: filter_empty_conv)
  then have "map_of ?d (new_id n) = Some (normalized (last ?same))"
    by (simp add: foldl_insert_map_of)
  with dist have one: "filter (\<lambda>p. fst p = new_id n) ?d = [(new_id n, normalized (last ?same))]"
    by (rule filter_key_single)
  have "filter (\<lambda>m. node_id m = new_id n) (map snd ?d) =
      map snd (filter (\<lambda>p. node_id (snd p) = new_id n) ?d)"
    by (simp add: filter_map comp_def)
  also have "filter (\<lambda>p. node_id (snd p) = new_id n) ?d = filter (\<lambda>p. fst p = new_id n) ?d"
    using merged_nodes_inv [of "all_nodes gs"] by (intro filter_cong) auto
  finally show "filter (\<lambda>m. node_id m = new_id n) (nodes_of (merge_graphs gs)) =
      [normalized (last ?same)]"
    by (simp add: one nodes_of_merge)
qed

theorem merge_graphs_last_seen_wins_witness:
  "\<lparr>node_id = ''1'', label = ''Company'', name = Some ''Acme''\<rparr> \<in> set (all_nodes acme_batches)
   \<and> filter (\<lambda>m. node_id m = ''Company_acme'') (nodes_of (merge_graphs acme_batches)) =
       [\<lparr>node_id = ''Company_acme'', label = ''Company'', name = Some ''ACME''\<rparr>]
   \<and> map node_id (nodes_of (merge_graphs acme_batches)) = [''Company_acme'', ''Rating_a'']"
proof -
  let ?n = "\<lparr>node_id = ''1'', label = ''Company'', name = Some ''Acme''\<rparr>"
  have h: "?n \<in> set (all_nodes acme_batches)" by code_simp
  have k: "new_id ?n = ''Company_acme''" by code_simp
  have v: "normalized (last (filter (\<lambda>x. new_id x = ''Company_acme'') (all_nodes acme_batches))) =
      \<lparr>node_id = ''Company_acme'', label = ''Company'', name = Some ''ACME''\<rparr>"
    by code_simp
  have ids: "map node_id (nodes_of (merge_graphs acme_batches)) = [''Company_acme'', ''Rating_a'']"
    by code_simp
  from merge_graphs_last_seen_wins [of acme_batches, THEN conjunct2, THEN conjunct2,
      THEN bspec, OF h]
  have "filter (\<lambda>m. node_id m = ''Company_acme'') (nodes_of (merge_graphs acme_batches)) =
      [\<lparr>node_id = ''Company_acme'', label = ''Company'', name = Some ''ACME''\<rparr>]"
    unfolding k v .
  with h ids show ?thesis by (intro conjI)
qed

subsection \<open>Removing duplicate relationships\<close>

lemma dedup_loop_acc: "dedup_loop rs acc seen = acc @ dedup_loop rs [] seen"
proof (induction rs arbitrary: acc seen)
  case Nil
  show ?case by simp
next
  case (Cons r rs)
  show ?case
  proof (cases "rel_tuple r \<in> seen")
    case True
    then show ?thesis using Cons.IH [of acc seen] by simp
  next
    case False
    have "dedup_loop (r # rs) acc seen = dedup_loop rs (acc @ [r]) (insert (rel_tuple r) seen)"
      using False by simp
    also have "\<dots> = (acc @ [r]) @ dedup_loop rs [] (insert (rel_tuple r) seen)"
      by (rule Cons.IH)
    also have "\<dots> = acc @ dedup_loop rs [r] (insert (rel_tuple r) seen)"
      using Cons.IH [of "[r]" "insert (rel_tuple r) seen"] by simp
    also have "\<dots> = acc @ dedup_loop (r # rs) [] seen"
      using False by simp
    finally show ?thesis .
  qed
qed

lemma dedup_loop_Cons:
  "dedup_loop (r # rs) [] seen =
     (if rel_tuple r \<in> seen then dedup_loop rs [] seen
      else r # dedup_loop rs [] (insert (rel_tuple r) seen))"
  using dedup_loop_acc [of rs "[r]" "insert (rel_tuple r) seen"] by simp

lemma dedup_loop_first_occurrences:
  "dedup_loop rs [] seen =
     map (\<lambda>i. rs ! i)
       (filter (\<lambda>i. rel_tuple (rs ! i) \<notin> seen \<union> rel_tuple ` set (take i rs)) [0..<length rs])"
proof (induction rs arbitrary: seen)
  case Nil
  show ?case by simp
next
  case (Cons r rs)
  let ?P = "\<lambda>s i. rel_tuple (rs ! i) \<notin> s \<union> rel_tuple ` set (take i rs)"
  let ?Q = "\<lambda>i. rel_tuple ((r # rs) ! i) \<notin> seen \<union> rel_tuple ` set (take i (r # rs))"
  have upt: "[0..<length (r # rs)] = 0 # map Suc [0..<length rs]"
    by (simp add: upt_conv_Cons map_Suc_upt del: upt_Suc)
  have shift: "map (\<lambda>i. (r # rs) ! i) (filter ?Q (map Suc [0..<length rs])) =
      map (\<lambda>i. rs ! i) (filter (?P (insert (rel_tuple r) seen)) [0..<length rs])"
  proof -
    have "filter ?Q (map Suc xs) = map Suc (filter (?P (insert (rel_tuple r) seen)) xs)" for xs
      by (induction xs) auto
    then show ?thesis by (simp add: comp_def)
  qed
  have q0: "?Q 0 \<longleftrightarrow> rel_tuple r \<notin> seen" by simp
  have rhs: "map (\<lambda>i. (r # rs) ! i) (filter ?Q [0..<length (r # rs)]) =
      (if rel_tuple r \<in> seen then [] else [r]) @
      map (\<lambda>i. rs ! i) (filter (?P (insert (rel_tuple r) seen)) [0..<length rs])"
    unfolding upt filter.simps q0 using shift by (simp del: upt_Suc)
  show ?case
  proof (cases "rel_tuple r \<in> seen")
    case True
    then have "insert (rel_tuple r) seen = seen" by auto
    with True Cons.IH [of seen] show ?thesis
      unfolding rhs dedup_loop_Cons by (simp del: dedup_loop.simps)
  next
    case False
    with Cons.IH [of "insert (rel_tuple r) seen"] show ?thesis
      unfolding rhs dedup_loop_Cons by (simp del: dedup_loop.simps)
  qed
qed

lemma dedup_loop_tuples:
  "distinct (map rel_tuple (dedup_loop rs [] seen))
   \<and> rel_tuple ` set (dedup_loop rs [] seen) = rel_tuple ` set rs - seen"
proof (induction rs arbitrary: seen)
  case Nil
  show ?case by simp
next
  case (Cons r rs)
  show ?case
  proof (cases "rel_tuple r \<in> seen")
    case True
    with Cons.IH [of seen] show ?thesis by (auto simp: dedup_loop_Cons simp del: dedup_loop.simps)
  next
    case False
    with Cons.IH [of "insert (rel_tuple r) seen"] show ?thesis
      by (auto simp: dedup_loop_Cons simp del: dedup_loop.simps)
  qed
qed

lemma dedup_loop_distinct_input:
  "distinct (map rel_tuple rs) \<Longrightarrow> rel_tuple ` set rs \<inter> seen = {} \<Longrightarrow>
   dedup_loop rs [] seen = rs"
proof (induction rs arbitrary: seen)
  case Nil
  show ?case by simp
next
  case (Cons r rs)
  from Cons.prems have new: "rel_tuple r \<notin> seen" by auto
  from Cons.prems have "rel_tuple ` set rs \<inter> insert (rel_tuple r) seen = {}" by auto
  with Cons.IH [of "insert (rel_tuple r) seen"] Cons.prems new
  show ?case by (simp add: dedup_loop_Cons del: dedup_loop.simps)
qed

lemma one_per_key:
  "distinct (map f xs) \<Longrightarrow> x \<in> set xs \<Longrightarrow> length (filter (\<lambda>u. f u = f x) xs) = 1"
proof (induction xs)
  case Nil
  then show ?case by simp
next
  case (Cons y ys)
  show ?case
  proof (cases "f y = f x")
    case True
    with Cons.prems have "\<forall>u \<in> set ys. f u \<noteq> f x" by (force simp: image_iff)
    then have "filter (\<lambda>u. f u = f x) ys = []" by (auto simp: filter_empty_conv)
    with True show ?thesis by simp
  next
    case False
    with Cons show ?thesis by auto
  qed
qed

text \<open>
  C2. The relationships of the output are the entries of the rewritten list
  \<open>combined_relationships\<close> whose triple (type, start, end) occurs at no earlier
  position, in the order of that list. So no two relationships of the output have the
  same triple, and for every rewritten entry the output holds exactly one relationship
  with its triple. A relationship has no field beside the triple.
\<close>

theorem merge_graphs_dedup_first_occurrence:
  "rels_of (merge_graphs gs) =
     map (\<lambda>i. combined_relationships_of gs ! i)
       (filter (\<lambda>i. rel_tuple (combined_relationships_of gs ! i)
                      \<notin> rel_tuple ` set (take i (combined_relationships_of gs)))
          [0..<length (combined_relationships_of gs)])
   \<and> distinct (map rel_tuple (rels_of (merge_graphs gs)))
   \<and> (\<forall>r \<in> set (combined_relationships_of gs).
        length (filter (\<lambda>u. rel_tuple u = rel_tuple r) (rels_of (merge_graphs gs))) = 1)"
proof (intro conjI ballI)
  let ?rs = "combined_relationships_of gs"
  let ?us = "rels_of (merge_graphs gs)"
  show "?us = map (\<lambda>i. ?rs ! i)
       (filter (\<lambda>i. rel_tuple (?rs ! i) \<notin> rel_tuple ` set (take i ?rs)) [0..<length ?rs])"
    using dedup_loop_first_occurrences [of ?rs "{}"] by (simp add: rels_of_merge)
  show dist: "distinct (map rel_tuple ?us)"
    using dedup_loop_tuples [of ?rs "{}"] by (simp add: rels_of_merge)
  fix r assume r: "r \<in> set ?rs"
  have "rel_tuple ` set ?us = rel_tuple ` set ?rs"
    using dedup_loop_tuples [of ?rs "{}"] by (simp add: rels_of_merge)
  with r obtain u where u: "u \<in> set ?us" and eq: "rel_tuple u = rel_tuple r"
    by (metis (no_types, lifting) image_iff)
  from one_per_key [OF dist u] eq
  show "length (filter (\<lambda>u. rel_tuple u = rel_tuple r) ?us) = 1" by simp
qed

theorem merge_graphs_dedup_first_occurrence_witness:
  "combined_relationships_of acme_batches =
     [\<lparr>rel_type = HAS_RATING, start_node_id = ''Company_acme'', end_node_id = ''Rating_a''\<rparr>,
      \<lparr>rel_type = HAS_RATING, start_node_id = ''Company_acme'', end_node_id = ''Rating_a''\<rparr>,
      \<lparr>rel_type = HAS_REPORT, start_node_id = ''Company_acme'', end_node_id = ''99''\<rparr>,
      \<lparr>rel_type = HAS_RATING, start_node_id = ''Company_acme'', end_node_id = ''Rating_a''\<rparr>]
   \<and> rels_of (merge_graphs acme_batches) =
     [\<lparr>rel_type = HAS_RATING, start_node_id = ''Company_acme'', end_node_id = ''Rating_a''\<rparr>,
      \<lparr>rel_type = HAS_REPORT, start_node_id = ''Company_acme'', end_node_id = ''99''\<rparr>]
   \<and> length (filter (\<lambda>u. rel_tuple u = (HAS_RATING, ''Company_acme'', ''Rating_a''))
         (rels_of (merge_graphs acme_batches))) = 1"
proof -
  let ?r = "\<lparr>rel_type = HAS_RATING, start_node_id = ''Company_acme'', end_node_id = ''Rating_a''\<rparr>"
  have c: "combined_relationships_of acme_batches =
     [?r, ?r, \<lparr>rel_type = HAS_REPORT, start_node_id = ''Company_acme'', end_node_id = ''99''\<rparr>, ?r]"
    by code_simp
  have u: "rels_of (merge_graphs acme_batches) =
     [?r, \<lparr>rel_type = HAS_REPORT, start_node_id = ''Company_acme'', end_node_id = ''99''\<rparr>]"
    by code_simp
  have h: "?r \<in> set (combined_relationships_of acme_batches)" unfolding c by simp
  have t: "rel_tuple ?r = (HAS_RATING, ''Company_acme'', ''Rating_a'')"
    by (simp add: rel_tuple_def)
  from merge_graphs_dedup_first_occurrence [of acme_batches, THEN conjunct2, THEN conjunct2,
      THEN bspec, OF h]
  have "length (filter (\<lambda>u. rel_tuple u = (HAS_RATING, ''Company_acme'', ''Rating_a''))
         (rels_of (merge_graphs acme_batches))) = 1"
    unfolding t .
  with c u show ?thesis by (intro conjI)
qed

subsection \<open>Rewriting the endpoints\<close>

lemma rel_tuple_inj: "rel_tuple u = rel_tuple (r :: relationship) \<Longrightarrow> u = r"
  by (cases u, cases r) (simp add: rel_tuple_def)

lemma id_map_last:
  "foldl (\<lambda>m n. m(node_id n \<mapsto> new_id n)) m ns k =
     (if filter (\<lambda>n. node_id n = k) ns = [] then m k
      else Some (new_id (last (filter (\<lambda>n. node_id n = k) ns))))"
  by (induction ns rule: rev_induct) simp_all

lemma chunk_id_map_last:
  "chunk_id_map c k =
     (if filter (\<lambda>n. node_id n = k) (chunk_nodes c) = [] then None
      else Some (new_id (last (filter (\<lambda>n. node_id n = k) (chunk_nodes c)))))"
  by (simp add: chunk_id_map_def node_loop_fst id_map_last)

lemma rels_of_merge_set:
  "set (rels_of (merge_graphs gs)) = set (combined_relationships_of gs)"
proof -
  have "rel_tuple ` set (rels_of (merge_graphs gs)) = rel_tuple ` set (combined_relationships_of gs)"
    using dedup_loop_tuples [of "combined_relationships_of gs" "{}"] by (simp add: rels_of_merge)
  moreover have "inj rel_tuple" by (rule injI) (rule rel_tuple_inj)
  ultimately show ?thesis by (simp add: inj_image_eq_iff)
qed

text \<open>
  C6. The list of rewritten relationships is, batch after batch, each relationship of the
  batch with both endpoints sent through the batch's own map. That map sends a
  batch-local identifier to the normalized identifier of the last node of the batch that
  carries it, and knows no other identifier; an endpoint the map does not know is left as
  it is. Every rewritten relationship is in the output, whether or not its endpoints are
  identifiers of nodes of the output.
\<close>

theorem merge_graphs_rewrites_endpoints:
  "combined_relationships_of gs =
     concat (map (\<lambda>c. map (rewrite (chunk_id_map c)) (chunk_rels c)) gs)
   \<and> (\<forall>k. chunk_id_map c k =
        (if filter (\<lambda>n. node_id n = k) (chunk_nodes c) = [] then None
         else Some (new_id (last (filter (\<lambda>n. node_id n = k) (chunk_nodes c))))))
   \<and> (\<forall>r. (chunk_id_map c (start_node_id r) = None \<longrightarrow>
              start_node_id (rewrite (chunk_id_map c) r) = start_node_id r)
          \<and> (chunk_id_map c (end_node_id r) = None \<longrightarrow>
              end_node_id (rewrite (chunk_id_map c) r) = end_node_id r))
   \<and> (\<forall>b \<in> set gs. \<forall>r \<in> set (chunk_rels b).
        rewrite (chunk_id_map b) r \<in> set (rels_of (merge_graphs gs)))"
proof (intro conjI allI ballI impI)
  show "combined_relationships_of gs =
     concat (map (\<lambda>c. map (rewrite (chunk_id_map c)) (chunk_rels c)) gs)"
    by (rule combined_relationships_eq)
  show "chunk_id_map c k =
        (if filter (\<lambda>n. node_id n = k) (chunk_nodes c) = [] then None
         else Some (new_id (last (filter (\<lambda>n. node_id n = k) (chunk_nodes c)))))" for k
    by (rule chunk_id_map_last)
  show "start_node_id (rewrite (chunk_id_map c) r) = start_node_id r"
    if "chunk_id_map c (start_node_id r) = None" for r
    using that by (simp add: rewrite_def)
  show "end_node_id (rewrite (chunk_id_map c) r) = end_node_id r"
    if "chunk_id_map c (end_node_id r) = None" for r
    using that by (simp add: rewrite_def)
  show "rewrite (chunk_id_map b) r \<in> set (rels_of (merge_graphs gs))"
    if "b \<in> set gs" and "r \<in> set (chunk_rels b)" for b r
    using that by (auto simp: rels_of_merge_set combined_relationships_eq)
qed

theorem merge_graphs_rewrites_endpoints_witness:
  "Some acme_second \<in> set acme_batches
   \<and> \<lparr>rel_type = HAS_REPORT, start_node_id = ''7'', end_node_id = ''99''\<rparr>
        \<in> set (chunk_rels (Some acme_second))
   \<and> chunk_id_map (Some acme_second) ''7'' = Some ''Company_acme''
   \<and> chunk_id_map (Some acme_second) ''99'' = None
   \<and> ''99'' \<notin> set (map node_id (nodes_of (merge_graphs acme_batches)))
   \<and> \<lparr>rel_type = HAS_REPORT, start_node_id = ''Company_acme'', end_node_id = ''99''\<rparr>
        \<in> set (rels_of (merge_graphs acme_batches))"
proof -
  let ?r = "\<lparr>rel_type = HAS_REPORT, start_node_id = ''7'', end_node_id = ''99''\<rparr>"
  have b: "Some acme_second \<in> set acme_batches" by (simp add: acme_batches_def)
  have r: "?r \<in> set (chunk_rels (Some acme_second))" by code_simp
  have m7: "chunk_id_map (Some acme_second) ''7'' = Some ''Company_acme''" by code_simp
  have m99: "chunk_id_map (Some acme_second) ''99'' = None" by code_simp
  have d: "''99'' \<notin> set (map node_id (nodes_of (merge_graphs acme_batches)))" by code_simp
  have w: "rewrite (chunk_id_map (Some acme_second)) ?r =
      \<lparr>rel_type = HAS_REPORT, start_node_id = ''Company_acme'', end_node_id = ''99''\<rparr>"
    by (simp add: rewrite_def m7 m99)
  note t = merge_graphs_rewrites_endpoints [of acme_batches "Some acme_second"]
  from t [THEN conjunct2, THEN conjunct2, THEN conjunct2, THEN bspec, OF b, THEN bspec, OF r]
  have "\<lparr>rel_type = HAS_REPORT, start_node_id = ''Company_acme'', end_node_id = ''99''\<rparr>
        \<in> set (rels_of (merge_graphs acme_batches))"
    unfolding w .
  with b r m7 m99 d show ?thesis by (intro conjI)
qed

subsection \<open>Merging a merged graph\<close>

lemma merge_graphs_fields:
  "merge_graphs gs =
     \<lparr>nodes = Some (nodes_of (merge_graphs gs)), relationships = Some (rels_of (merge_graphs gs))\<rparr>"
  by (simp add: merge_graphs_def nodes_of_def rels_of_def get_list_def split: prod.splits)

lemma merged_nodes_fixed:
  "n \<in> set (nodes_of (merge_graphs gs)) \<Longrightarrow> node_id n = new_id n"
  using merged_nodes_inv [of "all_nodes gs"] by (auto simp: nodes_of_merge)

lemma merged_new_ids_distinct: "distinct (map new_id (nodes_of (merge_graphs gs)))"
proof -
  have eq: "map new_id (nodes_of (merge_graphs gs)) = map node_id (nodes_of (merge_graphs gs))"
    by (rule map_cong) (simp_all add: merged_nodes_fixed)
  have "distinct (map node_id (nodes_of (merge_graphs gs)))"
    unfolding merged_node_ids by (rule foldl_insert_distinct) simp
  then show ?thesis unfolding eq .
qed

lemma identity_map_rewrite:
  assumes "\<forall>k v. m k = Some v \<longrightarrow> v = k"
  shows "rewrite m r = r"
proof -
  have "(case m k of None \<Rightarrow> k | Some i \<Rightarrow> i) = k" for k
    using assms by (cases "m k") auto
  then show ?thesis by (simp add: rewrite_def)
qed

lemma remerge_id_map:
  assumes "\<forall>n \<in> set (chunk_nodes c). node_id n = new_id n"
  shows "chunk_id_map c k = Some v \<Longrightarrow> v = k"
proof -
  assume some: "chunk_id_map c k = Some v"
  let ?f = "filter (\<lambda>n. node_id n = k) (chunk_nodes c)"
  from some have ne: "?f \<noteq> []" and v: "v = new_id (last ?f)"
    by (auto simp: chunk_id_map_last split: if_splits)
  from ne have "last ?f \<in> set ?f" by (rule last_in_set)
  then have "last ?f \<in> set (chunk_nodes c)" and "node_id (last ?f) = k" by auto
  with assms v show ?thesis by auto
qed

text \<open>
  C10. Merging the one-element list that holds a merged graph gives that graph again: the
  same nodes in the same order and the same relationships in the same order.
\<close>

theorem merge_graphs_idempotent:
  "merge_graphs [Some (merge_graphs gs)] = merge_graphs gs"
proof -
  let ?out = "merge_graphs gs"
  let ?ns = "nodes_of ?out"
  let ?us = "rels_of ?out"
  have cn: "chunk_nodes (Some ?out) = ?ns" by (simp add: chunk_nodes_def)
  have cr: "chunk_rels (Some ?out) = ?us" by (simp add: chunk_rels_def)
  have fixed: "\<forall>n \<in> set ?ns. node_id n = new_id n" by (simp add: merged_nodes_fixed)
  have "foldl insert_node [] ?ns = [] @ map (\<lambda>n. (new_id n, normalized n)) ?ns"
    by (rule foldl_insert_fresh) (simp_all add: merged_new_ids_distinct)
  then have "map snd (foldl insert_node [] ?ns) = map normalized ?ns"
    by (simp add: comp_def)
  also have "\<dots> = ?ns"
    using fixed by (intro map_idI) (simp add: normalized_fixed)
  finally have nodes_again: "nodes_of (merge_graphs [Some ?out]) = ?ns"
    by (simp add: nodes_of_merge all_nodes_def cn)
  have same: "rewrite (chunk_id_map (Some ?out)) r = r" for r
  proof (rule identity_map_rewrite, intro allI impI)
    fix k v assume "chunk_id_map (Some ?out) k = Some v"
    with fixed show "v = k" using remerge_id_map [of "Some ?out" k v] by (simp add: cn)
  qed
  have "map (rewrite (chunk_id_map (Some ?out))) ?us = ?us"
    by (rule map_idI) (rule same)
  then have comb: "combined_relationships_of [Some ?out] = ?us"
    by (simp add: combined_relationships_eq cr)
  have "distinct (map rel_tuple ?us)"
    using dedup_loop_tuples [of "combined_relationships_of gs" "{}"] by (simp add: rels_of_merge)
  then have "dedup_loop ?us [] {} = ?us"
    by (rule dedup_loop_distinct_input) simp
  then have rels_again: "rels_of (merge_graphs [Some ?out]) = ?us"
    by (simp add: rels_of_merge [of "[Some ?out]"] comb)
  have "merge_graphs [Some ?out] =
      \<lparr>nodes = Some (nodes_of (merge_graphs [Some ?out])),
       relationships = Some (rels_of (merge_graphs [Some ?out]))\<rparr>"
    by (rule merge_graphs_fields)
  also have "\<dots> = \<lparr>nodes = Some ?ns, relationships = Some ?us\<rparr>"
    by (simp only: nodes_again rels_again)
  also have "\<dots> = ?out" by (rule merge_graphs_fields [symmetric])
  finally show ?thesis .
qed

theorem merge_graphs_idempotent_witness:
  "merge_graphs [Some (merge_graphs acme_batches)] = merge_graphs acme_batches
   \<and> merge_graphs acme_batches =
       \<lparr>nodes = Some [\<lparr>node_id = ''Company_acme'', label = ''Company'', name = Some ''ACME''\<rparr>,
                      \<lparr>node_id = ''Rating_a'', label = ''Rating'', name = Some ''A''\<rparr>],
        relationships = Some
          [\<lparr>rel_type = HAS_RATING, start_node_id = ''Company_acme'', end_node_id = ''Rating_a''\<rparr>,
           \<lparr>rel_type = HAS_REPORT, start_node_id = ''Company_acme'', end_node_id = ''99''\<rparr>]\<rparr>"
proof -
  have v: "merge_graphs acme_batches =
       \<lparr>nodes = Some [\<lparr>node_id = ''Company_acme'', label = ''Company'', name = Some ''ACME''\<rparr>,
                      \<lparr>node_id = ''Rating_a'', label = ''Rating'', name = Some ''A''\<rparr>],
        relationships = Some
          [\<lparr>rel_type = HAS_RATING, start_node_id = ''Company_acme'', end_node_id = ''Rating_a''\<rparr>,
           \<lparr>rel_type = HAS_REPORT, start_node_id = ''Company_acme'', end_node_id = ''99''\<rparr>]\<rparr>"
    by code_simp
  from merge_graphs_idempotent [of acme_batches] v show ?thesis by (intro conjI)
qed

section \<open>Properties of the extraction pipeline\<close>

subsection \<open>The text of a batch\<close>

lemma text_loop_eq: "text_loop rows t = t @ concat (map row_block rows)"
  by (induction rows t rule: text_loop.induct) (simp_all add: row_block_def row_header_def)

lemma batch_text_blocks: "batch_text df i b = concat (map row_block (iloc_rows df i b))"
  by (simp add: batch_text_def text_loop_eq)

lemma present_cells_drop_missing: "present_cells (drop_missing r) = present_cells r"
  unfolding present_cells_def drop_missing_def
  by (induction r) (auto split: option.splits)

lemma row_text_drop_missing: "row_text (drop_missing r) = row_text r"
  by (simp add: row_text_def present_cells_drop_missing)

lemma iloc_rows_map:
  "iloc_rows (map f df) i b = map (\<lambda>p. (fst p, f (snd p))) (iloc_rows df i b)"
  by (simp add: iloc_rows_def take_map drop_map zip_map2 case_prod_beta)

lemma row_block_drop_missing: "row_block (fst p, drop_missing (snd p)) = row_block p"
  by (simp add: row_block_def row_text_drop_missing)

lemma batch_text_drop_missing: "batch_text (map drop_missing df) i b = batch_text df i b"
  by (simp add: batch_text_blocks iloc_rows_map comp_def row_block_drop_missing)

lemma lines_of_line:
  "newline \<notin> set s \<Longrightarrow> lines_of (s @ newline # t) = s # lines_of t"
  by (induction s) auto

lemma digit_no_newline: "d < 10 \<Longrightarrow> digit d \<noteq> newline"
proof
  assume d: "d < 10" and eq: "digit d = newline"
  have "(of_char (digit d) :: nat) = (48 + d) mod 256"
    by (simp add: digit_def)
  moreover have "(of_char newline :: nat) = 10" by (simp add: newline_def)
  ultimately have "(48 + d) mod 256 = 10" using eq by simp
  with d show False by simp
qed

lemma str_nat_no_newline: "newline \<notin> set (str_nat n)"
proof (induction n rule: str_nat.induct)
  case (1 n)
  show ?case
  proof (cases "n < 10")
    case True
    then show ?thesis using digit_no_newline [of n] by (subst str_nat.simps) auto
  next
    case False
    have "n mod 10 < 10" by simp
    then have "digit (n mod 10) \<noteq> newline" by (rule digit_no_newline)
    with False 1 show ?thesis by (subst str_nat.simps) auto
  qed
qed

lemma header_no_newline: "newline \<notin> set (row_header n)"
  using str_nat_no_newline [of "n + 1"] by (auto simp: row_header_def newline_def)

lemma join_no_newline:
  "newline \<notin> set sep \<Longrightarrow> \<forall>x \<in> set xs. newline \<notin> set x \<Longrightarrow> newline \<notin> set (join sep xs)"
  by (induction sep xs rule: join.induct) auto

lemma row_text_no_newline: "no_newline r \<Longrightarrow> newline \<notin> set (row_text r)"
  unfolding row_text_def
  by (rule join_no_newline) (auto simp: no_newline_def cell_text_def newline_def)

lemma lines_of_row_block:
  assumes "no_newline (snd p)"
  shows "lines_of (row_block p @ t) = row_lines p @ lines_of t"
proof -
  have "row_block p @ t = row_header (fst p) @ newline # (row_text (snd p) @ newline # (newline # t))"
    by (simp add: row_block_def)
  also have "lines_of \<dots> = row_header (fst p) # lines_of (row_text (snd p) @ newline # (newline # t))"
    by (rule lines_of_line) (rule header_no_newline)
  also have "lines_of (row_text (snd p) @ newline # (newline # t)) =
      row_text (snd p) # lines_of (newline # t)"
    by (rule lines_of_line) (rule row_text_no_newline [OF assms])
  also have "lines_of (newline # t) = [] # lines_of t" by simp
  finally show ?thesis by (simp add: row_lines_def)
qed

lemma lines_of_blocks:
  "\<forall>p \<in> set rows. no_newline (snd p) \<Longrightarrow>
   lines_of (concat (map row_block rows)) = concat (map row_lines rows) @ [[]]"
  by (induction rows) (simp_all add: lines_of_row_block)

lemma iloc_rows_subset: "p \<in> set (iloc_rows df i b) \<Longrightarrow> snd p \<in> set df"
  unfolding iloc_rows_def
  by (metis in_set_dropD in_set_takeD prod.collapse set_zip_rightD)

lemma iloc_rows_eq:
  "iloc_rows df i b = map (\<lambda>j. (j, df ! j)) [i..<min (i + b) (length df)]"
proof (rule nth_equalityI)
  show len: "length (iloc_rows df i b) = length (map (\<lambda>j. (j, df ! j)) [i..<min (i + b) (length df)])"
    by (auto simp: iloc_rows_def)
  fix k assume "k < length (iloc_rows df i b)"
  then have k: "k < b" "i + k < length df" by (auto simp: iloc_rows_def)
  then have "i + k < min (i + b) (length df)" by simp
  then have "[i..<min (i + b) (length df)] ! k = i + k" by (rule nth_upt)
  with k show "iloc_rows df i b ! k = map (\<lambda>j. (j, df ! j)) [i..<min (i + b) (length df)] ! k"
    by (simp add: iloc_rows_def)
qed

subsection \<open>The loop over the batches\<close>

lemma process_batch_invocations:
  "invocations (process_batch invoke wr df b i st) = invocations st @ [(i, batch_text df i b)]"
  by (simp add: process_batch_def Let_def split: sum.splits write_outcome.splits)







lemma batch_loop_invocations:
  "invocations (batch_loop invoke wr df b starts st) =
     invocations st @ map (\<lambda>i. (i, batch_text df i b)) starts"
  by (induction starts arbitrary: st) (simp_all add: process_batch_invocations)







lemma run_batches_invocations:
  "invocations (run_batches invoke wr df b loaded) =
     map (\<lambda>i. (i, batch_text df i b)) (batch_starts loaded df b)"
  by (simp add: run_batches_def batch_loop_invocations load_checkpoint_def)

lemma row_block_eq:
  "row_block (j, r) =
     ''[Row '' @ str_nat (j + 1) @ '']'' @ [CHR 0x0A] @
     join '' / '' (map (\<lambda>cv. fst cv @ '': '' @ snd cv) (present_cells r)) @ [CHR 0x0A, CHR 0x0A]"
proof -
  have "cell_text = (\<lambda>cv. fst cv @ '': '' @ snd cv)"
    by (simp add: fun_eq_iff cell_text_def)
  then show ?thesis
    by (simp add: row_block_def row_header_def row_text_def newline_def)
qed

text \<open>
  C9. The batch that starts at row \<open>i\<close> holds the rows \<open>i\<close> to \<open>i + b - 1\<close> of the table
  that exist. Its text is, row after row, the header \<open>[Row n]\<close> with the row's index plus
  one, a newline, the row's cells that are not missing, each written \<open>column: value\<close> and
  joined by \<open> / \<close>, and two newlines. A missing cell contributes nothing: the text is that
  of the table without its missing cells. Where no column name and no value of the table
  holds a newline, the lines of the text are exactly three per row: the header, one line
  with all the cells, and an empty line. This text is what each call of the collaborator
  is given.
\<close>

theorem batch_text_one_line_per_row:
  "iloc_rows df i b = map (\<lambda>j. (j, df ! j)) [i..<min (i + b) (length df)]
   \<and> batch_text df i b = concat (map row_block (iloc_rows df i b))
   \<and> row_block (j, r) =
       ''[Row '' @ str_nat (j + 1) @ '']'' @ [CHR 0x0A] @
       join '' / '' (map (\<lambda>cv. fst cv @ '': '' @ snd cv) (present_cells r)) @ [CHR 0x0A, CHR 0x0A]
   \<and> batch_text (map drop_missing df) i b = batch_text df i b
   \<and> ((\<forall>r \<in> set df. no_newline r) \<longrightarrow>
        lines_of (batch_text df i b) = concat (map row_lines (iloc_rows df i b)) @ [[]])
   \<and> (\<forall>call \<in> set (invocations (run_batches invoke wr df b loaded)).
        snd call = batch_text df (fst call) b)"
proof (intro conjI impI ballI)
  show "iloc_rows df i b = map (\<lambda>j. (j, df ! j)) [i..<min (i + b) (length df)]"
    by (rule iloc_rows_eq)
  show "batch_text df i b = concat (map row_block (iloc_rows df i b))"
    by (rule batch_text_blocks)
  show "row_block (j, r) =
       ''[Row '' @ str_nat (j + 1) @ '']'' @ [CHR 0x0A] @
       join '' / '' (map (\<lambda>cv. fst cv @ '': '' @ snd cv) (present_cells r)) @ [CHR 0x0A, CHR 0x0A]"
    by (rule row_block_eq)
  show "batch_text (map drop_missing df) i b = batch_text df i b"
    by (rule batch_text_drop_missing)
  show "lines_of (batch_text df i b) = concat (map row_lines (iloc_rows df i b)) @ [[]]"
    if "\<forall>r \<in> set df. no_newline r"
  proof -
    from that have "\<forall>p \<in> set (iloc_rows df i b). no_newline (snd p)"
      using iloc_rows_subset by blast
    then show ?thesis unfolding batch_text_blocks by (rule lines_of_blocks)
  qed
  show "snd call = batch_text df (fst call) b"
    if "call \<in> set (invocations (run_batches invoke wr df b loaded))" for call
    using that by (auto simp: run_batches_invocations)
qed

theorem batch_text_one_line_per_row_witness:
  "list_all no_newline esg_table
   \<and> lines_of (batch_text esg_table 1 2) =
       [''[Row 2]'', ''Company: NetApp Inc. / Note: ok'', '''',
        ''[Row 3]'', ''Company: Initech / Rating: B'', '''', '''']
   \<and> iloc_rows esg_table 1 2 = [(1, esg_table ! 1), (2, esg_table ! 2)]
   \<and> (10, batch_text esg_table_long 10 BATCH_SIZE)
        \<in> set (invocations (run_batches answers_at_ten writes_all esg_table_long BATCH_SIZE None))
   \<and> lines_of (batch_text two_line_table 0 BATCH_SIZE) =
       [''[Row 1]'', ''Company: Acme / Note: a'', ''b'', '''', '''']"
proof -
  have h: "\<forall>r \<in> set esg_table. no_newline r" by code_simp
  have v: "concat (map row_lines (iloc_rows esg_table 1 2)) @ [[]] =
       [''[Row 2]'', ''Company: NetApp Inc. / Note: ok'', '''',
        ''[Row 3]'', ''Company: Initech / Rating: B'', '''', '''']"
    by code_simp
  have c: "(10, batch_text esg_table_long 10 BATCH_SIZE)
        \<in> set (invocations (run_batches answers_at_ten writes_all esg_table_long BATCH_SIZE None))"
    by code_simp
  have two: "lines_of (batch_text two_line_table 0 BATCH_SIZE) =
       [''[Row 1]'', ''Company: Acme / Note: a'', ''b'', '''', '''']"
    by code_simp
  note t = batch_text_one_line_per_row [of esg_table 1 2]
  have idx: "map (\<lambda>j. (j, esg_table ! j)) [1..<min (1 + 2) (length esg_table)] =
      [(1, esg_table ! 1), (2, esg_table ! 2)]"
    by code_simp
  from t [THEN conjunct1]
  have rows: "iloc_rows esg_table 1 2 = [(1, esg_table ! 1), (2, esg_table ! 2)]"
    unfolding idx .
  from t [THEN conjunct2, THEN conjunct2, THEN conjunct2, THEN conjunct2, THEN conjunct1,
      THEN mp, OF h]
  have "lines_of (batch_text esg_table 1 2) =
       [''[Row 2]'', ''Company: NetApp Inc. / Note: ok'', '''',
        ''[Row 3]'', ''Company: Initech / Rating: B'', '''', '''']"
    unfolding v .
  moreover from h have "list_all no_newline esg_table" by (simp add: list_all_iff)
  ultimately show ?thesis using rows c two by (intro conjI)
qed

theorem batch_text_line_per_cell_counterexample:
  "\<not> (\<forall>df i b. \<forall>p \<in> set (iloc_rows df i b). \<forall>cv \<in> set (present_cells (snd p)).
         cell_text cv \<in> set (lines_of (batch_text df i b)))"
proof
  assume a: "\<forall>df i b. \<forall>p \<in> set (iloc_rows df i b). \<forall>cv \<in> set (present_cells (snd p)).
         cell_text cv \<in> set (lines_of (batch_text df i b))"
  let ?row = "[(''Company'', Some ''Acme''), (''Rating'', Some ''A''), (''Note'', None)]"
  have p: "(0, ?row) \<in> set (iloc_rows esg_table 0 2)" by code_simp
  have cv: "(''Company'', ''Acme'') \<in> set (present_cells (snd (0 :: nat, ?row)))" by code_simp
  from a [rule_format, OF p cv]
  have "cell_text (''Company'', ''Acme'') \<in> set (lines_of (batch_text esg_table 0 2))" .
  moreover have "cell_text (''Company'', ''Acme'') \<notin> set (lines_of (batch_text esg_table 0 2))"
    by code_simp
  ultimately show False by simp
qed




section \<open>Properties of the query gateway\<close>

lemma try_body_raises:
  "try_body client retriever q = Inl e \<Longrightarrow>
   retriever q = Inl e
   \<or> e = Exception no_get_text
   \<or> e = Exception no_index_text
   \<or> (\<exists>context. client q context = Inl e)"
  by (auto simp: try_body_def Let_def split: sum.splits option.splits if_splits list.splits)

text \<open>
  C8. If the search returns a result with metadata and no record, the answer is \<open>None\<close>
  with the generated query (the empty text if the metadata has none). If an exception of
  class \<open>Exception\<close> with a text is raised at any stage, by the search, by a missing
  metadata, by the completion or by an empty list of choices, the answer is the error
  prefix, the cross mark and its text, followed by the exception's text, and the query is
  the text \<open>Error\<close>. If the collaborators raise no other exceptions, the function returns.
  An exception leaves the function exactly when the body raises one outside class
  \<open>Exception\<close>, which leaves as it is, or one whose \<open>__str__\<close> raises, in which case
  what \<open>__str__\<close> raised leaves.
\<close>

theorem generate_answer_error_contract:
  "error_prefix =
     [CHR 0xE2, CHR 0x9D, CHR 0x8C, CHR 0x20, CHR 0xEB, CHR 0xB6, CHR 0x84, CHR 0xEC, CHR 0x84,
      CHR 0x9D, CHR 0x20, CHR 0xEC, CHR 0xA4, CHR 0x91, CHR 0x20, CHR 0xEC, CHR 0x98, CHR 0xA4,
      CHR 0xEB, CHR 0xA5, CHR 0x98, CHR 0x20, CHR 0xEB, CHR 0xB0, CHR 0x9C, CHR 0xEC, CHR 0x83,
      CHR 0x9D, CHR 0x3A, CHR 0x20]
   \<and> (\<forall>result md. retriever q = Inr result \<and> metadata result = Some md
          \<and> get_list (items result) = [] \<longrightarrow>
        generate_answer client retriever q = Inr (None, get_cypher md))
   \<and> (\<forall>m. try_body client retriever q = Inl (Exception m) \<longrightarrow>
        generate_answer client retriever q = Inr (Some (error_prefix @ m), ''Error''))
   \<and> (\<forall>m. retriever q = Inl (Exception m) \<longrightarrow>
        generate_answer client retriever q = Inr (Some (error_prefix @ m), ''Error''))
   \<and> (\<forall>result. retriever q = Inr result \<and> metadata result = None \<longrightarrow>
        generate_answer client retriever q =
          Inr (Some (error_prefix @ [CHR 0x27] @ ''NoneType'' @ [CHR 0x27] @
                     '' object has no attribute '' @ [CHR 0x27] @ ''get'' @ [CHR 0x27]),
               ''Error''))
   \<and> (\<forall>result md m. retriever q = Inr result \<and> metadata result = Some md
          \<and> get_list (items result) \<noteq> []
          \<and> client q (join [CHR 0x0A] (get_list (items result))) = Inl (Exception m) \<longrightarrow>
        generate_answer client retriever q = Inr (Some (error_prefix @ m), ''Error''))
   \<and> (\<forall>result md. retriever q = Inr result \<and> metadata result = Some md
          \<and> get_list (items result) \<noteq> []
          \<and> client q (join [CHR 0x0A] (get_list (items result))) = Inr [] \<longrightarrow>
        generate_answer client retriever q =
          Inr (Some (error_prefix @ ''list index out of range''), ''Error''))
   \<and> ((\<forall>e. retriever q = Inl e \<longrightarrow> printable e)
        \<and> (\<forall>context e. client q context = Inl e \<longrightarrow> printable e) \<longrightarrow>
        (\<exists>answer query. generate_answer client retriever q = Inr (answer, query)))
   \<and> (\<forall>x. generate_answer client retriever q = Inl x \<longleftrightarrow>
        try_body client retriever q = Inl (Unprintable x)
        \<or> (\<exists>n. x = BaseException n \<and> try_body client retriever q = Inl x))"
proof (intro conjI allI impI)
  show "error_prefix =
     [CHR 0xE2, CHR 0x9D, CHR 0x8C, CHR 0x20, CHR 0xEB, CHR 0xB6, CHR 0x84, CHR 0xEC, CHR 0x84,
      CHR 0x9D, CHR 0x20, CHR 0xEC, CHR 0xA4, CHR 0x91, CHR 0x20, CHR 0xEC, CHR 0x98, CHR 0xA4,
      CHR 0xEB, CHR 0xA5, CHR 0x98, CHR 0x20, CHR 0xEB, CHR 0xB0, CHR 0x9C, CHR 0xEC, CHR 0x83,
      CHR 0x9D, CHR 0x3A, CHR 0x20]"
    by (rule error_prefix_def)
  show "generate_answer client retriever q = Inr (None, get_cypher md)"
    if "retriever q = Inr result \<and> metadata result = Some md \<and> get_list (items result) = []"
    for result md
    using that by (simp add: generate_answer_def try_body_def)
  show "generate_answer client retriever q = Inr (Some (error_prefix @ m), ''Error'')"
    if "try_body client retriever q = Inl (Exception m)" for m
    using that by (simp add: generate_answer_def)
  show "generate_answer client retriever q = Inr (Some (error_prefix @ m), ''Error'')"
    if "retriever q = Inl (Exception m)" for m
    using that by (simp add: generate_answer_def try_body_def)
  show "generate_answer client retriever q =
          Inr (Some (error_prefix @ [CHR 0x27] @ ''NoneType'' @ [CHR 0x27] @
                     '' object has no attribute '' @ [CHR 0x27] @ ''get'' @ [CHR 0x27]),
               ''Error'')"
    if "retriever q = Inr result \<and> metadata result = None" for result
  proof -
    from that have "try_body client retriever q = Inl (Exception no_get_text)"
      by (simp add: try_body_def)
    then have "generate_answer client retriever q = Inr (Some (error_prefix @ no_get_text), ''Error'')"
      by (simp add: generate_answer_def)
    then show ?thesis unfolding no_get_text_def .
  qed
  show "generate_answer client retriever q = Inr (Some (error_prefix @ m), ''Error'')"
    if "retriever q = Inr result \<and> metadata result = Some md
          \<and> get_list (items result) \<noteq> []
          \<and> client q (join [CHR 0x0A] (get_list (items result))) = Inl (Exception m)"
    for result md m
    using that by (simp add: generate_answer_def try_body_def Let_def newline_def)
  show "generate_answer client retriever q =
          Inr (Some (error_prefix @ ''list index out of range''), ''Error'')"
    if "retriever q = Inr result \<and> metadata result = Some md
          \<and> get_list (items result) \<noteq> []
          \<and> client q (join [CHR 0x0A] (get_list (items result))) = Inr []" for result md
  proof -
    from that have "try_body client retriever q = Inl (Exception no_index_text)"
      by (simp add: try_body_def Let_def newline_def)
    then have "generate_answer client retriever q = Inr (Some (error_prefix @ no_index_text), ''Error'')"
      by (simp add: generate_answer_def)
    then show ?thesis unfolding no_index_text_def .
  qed
  show "\<exists>answer query. generate_answer client retriever q = Inr (answer, query)"
    if h: "(\<forall>e. retriever q = Inl e \<longrightarrow> printable e)
        \<and> (\<forall>context e. client q context = Inl e \<longrightarrow> printable e)"
  proof (cases "try_body client retriever q")
    case (Inl e)
    from try_body_raises [OF Inl] h have "printable e" by auto
    then obtain m where "e = Exception m" by (cases e) simp_all
    with Inl show ?thesis by (simp add: generate_answer_def)
  next
    case (Inr r)
    then show ?thesis by (cases r) (simp add: generate_answer_def)
  qed
  show "generate_answer client retriever q = Inl x \<longleftrightarrow>
        try_body client retriever q = Inl (Unprintable x)
        \<or> (\<exists>n. x = BaseException n \<and> try_body client retriever q = Inl x)" for x
  proof (cases "try_body client retriever q")
    case (Inl e)
    then show ?thesis by (cases e) (auto simp: generate_answer_def)
  next
    case (Inr r)
    then show ?thesis by (simp add: generate_answer_def)
  qed
qed

theorem generate_answer_error_contract_witness:
  "generate_answer client_down finds_nothing ''rating of Initech?'' = Inr (None, company_query)
   \<and> generate_answer client_down store_down ''rating of Initech?'' =
     Inr (Some ([CHR 0xE2, CHR 0x9D, CHR 0x8C, CHR 0x20, CHR 0xEB, CHR 0xB6, CHR 0x84, CHR 0xEC,
                 CHR 0x84, CHR 0x9D, CHR 0x20, CHR 0xEC, CHR 0xA4, CHR 0x91, CHR 0x20, CHR 0xEC,
                 CHR 0x98, CHR 0xA4, CHR 0xEB, CHR 0xA5, CHR 0x98, CHR 0x20, CHR 0xEB, CHR 0xB0,
                 CHR 0x9C, CHR 0xEC, CHR 0x83, CHR 0x9D, CHR 0x3A, CHR 0x20]
                @ ''connection refused''), ''Error'')
   \<and> generate_answer client_down finds_one ''rating of NetApp?'' =
     Inr (Some (error_prefix @ ''rate limit''), ''Error'')"
proof -
  let ?q = "''rating of Initech?''"
  let ?md = "[''cypher'' \<mapsto> company_query]"
  let ?none = "\<lparr>metadata = Some ?md, items = Some []\<rparr>"
  let ?one = "\<lparr>metadata = Some ?md, items = Some [''NetApp'']\<rparr>"
  note t = generate_answer_error_contract
  have h1: "finds_nothing ?q = Inr ?none \<and> metadata ?none = Some ?md \<and> get_list (items ?none) = []"
    by (simp add: finds_nothing_def get_list_def)
  from t [of finds_nothing ?q client_down, THEN conjunct2, THEN conjunct1, THEN spec, THEN spec,
      THEN mp, OF h1]
  have a: "generate_answer client_down finds_nothing ?q = Inr (None, company_query)"
    by (simp add: get_cypher_def)
  have h2: "store_down ?q = Inl (Exception ''connection refused'')" by (simp add: store_down_def)
  from t [of store_down ?q client_down, THEN conjunct2, THEN conjunct2, THEN conjunct2,
      THEN conjunct1, THEN spec, THEN mp, OF h2]
  have b: "generate_answer client_down store_down ?q =
      Inr (Some (error_prefix @ ''connection refused''), ''Error'')" .
  have h3: "finds_one ''rating of NetApp?'' = Inr ?one \<and> metadata ?one = Some ?md
      \<and> get_list (items ?one) \<noteq> []
      \<and> client_down ''rating of NetApp?'' (join [CHR 0x0A] (get_list (items ?one))) =
          Inl (Exception ''rate limit'')"
    by (simp add: finds_one_def get_list_def client_down_def)
  from t [of finds_one "''rating of NetApp?''" client_down, THEN conjunct2, THEN conjunct2,
      THEN conjunct2, THEN conjunct2, THEN conjunct2, THEN conjunct1, THEN spec, THEN spec,
      THEN spec, THEN mp, OF h3]
  have c: "generate_answer client_down finds_one ''rating of NetApp?'' =
      Inr (Some (error_prefix @ ''rate limit''), ''Error'')" .
  from a b [unfolded t [of store_down ?q client_down, THEN conjunct1]] c
  show ?thesis by (intro conjI)
qed

theorem generate_answer_raises_counterexample:
  "\<not> (\<forall>client retriever q. \<exists>answer query.
        generate_answer client retriever q = Inr (answer, query))"
proof
  assume "\<forall>client retriever q. \<exists>answer query.
        generate_answer client retriever q = Inr (answer, query)"
  then obtain answer query
    where "generate_answer client_down interrupted ''rating of Initech?'' = Inr (answer, query)"
    by blast
  moreover have "generate_answer client_down interrupted ''rating of Initech?'' =
      Inl (BaseException ''KeyboardInterrupt'')"
    by (simp add: generate_answer_def try_body_def interrupted_def)
  ultimately show False by simp
qed

section \<open>Properties of the graph loader\<close>

subsection \<open>Writing the nodes\<close>

lemma set_props_other: "k \<notin> fst ` set ps \<Longrightarrow> set_props ps m k = m k"
  by (induction ps m rule: set_props.induct) auto

lemma overrides_set_props: "overrides (set_props ps)"
proof (induction ps)
  case Nil
  have "\<forall>m k. set_props [] m k = (if k \<in> {} then undefined k else m k)" by simp
  then show ?case unfolding overrides_def
    by (intro exI [of _ "{}"] exI [of _ undefined])
next
  case (Cons kv ps)
  obtain k v where kv: "kv = (k, v)" by (cases kv)
  from Cons obtain K V where KV: "\<forall>m j. set_props ps m j = (if j \<in> K then V j else m j)"
    unfolding overrides_def by blast
  have "\<forall>m j. set_props (kv # ps) m j =
      (if j \<in> insert k K then (if j \<in> K then V j else v) else m j)"
    by (simp add: kv KV)
  then show ?case unfolding overrides_def
    by (intro exI [of _ "insert k K"] exI [of _ "\<lambda>j. if j \<in> K then V j else v"])
qed

lemma overrides_idempotent: "overrides f \<Longrightarrow> f (f m) = f m"
  unfolding overrides_def by (auto simp: fun_eq_iff)

lemma overrides_id: "overrides (\<lambda>m. m)"
proof -
  have "\<forall>m k. (\<lambda>m. m) m k = (if k \<in> {} then undefined k else m k)" by simp
  then show ?thesis unfolding overrides_def
    by (intro exI [of _ "{}"] exI [of _ undefined])
qed

lemma overrides_comp:
  assumes "overrides f" and "overrides g"
  shows "overrides (\<lambda>m. g (f m))"
proof -
  from assms obtain K V L W
    where f: "\<forall>m k. f m k = (if k \<in> K then V k else m k)"
      and g: "\<forall>m k. g m k = (if k \<in> L then W k else m k)"
    unfolding overrides_def by blast
  have "\<forall>m k. g (f m) k = (if k \<in> K \<union> L then (if k \<in> L then W k else V k) else m k)"
    by (simp add: f g)
  then show ?thesis unfolding overrides_def
    by (intro exI [of _ "K \<union> L"] exI [of _ "\<lambda>k. if k \<in> L then W k else V k"])
qed

lemma overrides_matching_updates: "overrides (matching_updates ps x)"
proof (induction ps)
  case Nil
  have "matching_updates [] x = (\<lambda>m. m)" by (simp add: fun_eq_iff)
  then show ?case by (simp add: overrides_id)
next
  case (Cons p ps)
  let ?f = "\<lambda>m. if matches p x then set_props (nproperties p) m else m"
  have f: "overrides ?f"
    by (cases "matches p x") (simp_all add: overrides_set_props overrides_id)
  have "matching_updates (p # ps) x = (\<lambda>m. matching_updates ps x (?f m))"
    by (simp add: fun_eq_iff)
  with overrides_comp [OF f Cons] show ?case by simp
qed

text \<open>A node whose properties do not name \<open>id\<close> leaves the label and the identifier of
  every stored node as they are.\<close>

lemma matches_upd:
  "''id'' \<notin> fst ` set (nproperties p) \<Longrightarrow> matches q (upd p x) = matches q x"
  by (simp add: upd_def matches_def set_props_other)

lemma matches_same_key:
  "nlabel q = nlabel p \<Longrightarrow> nid q = nid p \<Longrightarrow> matches q = matches p"
  by (simp add: matches_def fun_eq_iff)

lemma matches_created: "matches q (created p) \<longleftrightarrow> nlabel q = nlabel p \<and> nid q = nid p"
  by (auto simp: matches_def created_def)

lemma merge_node_has_match:
  "''id'' \<notin> fst ` set (nproperties p) \<Longrightarrow> list_ex (matches p) (merge_node p ns)"
  by (auto simp: merge_node_def list_ex_iff matches_upd matches_created)

lemma merge_node_keeps_match:
  "''id'' \<notin> fst ` set (nproperties p) \<Longrightarrow> list_ex (matches q) ns \<Longrightarrow>
   list_ex (matches q) (merge_node p ns)"
  by (auto simp: merge_node_def list_ex_iff matches_upd)

lemma write_nodes_Cons: "write_nodes (p # ps) ns = write_nodes ps (merge_node p ns)"
  by (simp add: write_nodes_def)

lemma upd_all_Cons: "upd_all (p # ps) x = upd_all ps (upd p x)"
  by (simp add: upd_all_def)

lemma upd_all_Nil: "upd_all [] = (\<lambda>x. x)"
  by (simp add: fun_eq_iff upd_all_def)

lemma write_nodes_keeps_match:
  "\<forall>p \<in> set ps. ''id'' \<notin> fst ` set (nproperties p) \<Longrightarrow> list_ex (matches q) ns \<Longrightarrow>
   list_ex (matches q) (write_nodes ps ns)"
proof (induction ps arbitrary: ns)
  case Nil
  then show ?case by (simp add: write_nodes_def)
next
  case (Cons p ps)
  from Cons.prems have "list_ex (matches q) (merge_node p ns)"
    by (intro merge_node_keeps_match) simp_all
  with Cons show ?case by (simp add: write_nodes_Cons)
qed

lemma write_nodes_saturated:
  "\<forall>p \<in> set ps. ''id'' \<notin> fst ` set (nproperties p) \<Longrightarrow>
   \<forall>q \<in> set ps. list_ex (matches q) (write_nodes ps ns)"
proof (induction ps arbitrary: ns)
  case Nil
  show ?case by simp
next
  case (Cons p ps)
  from Cons.prems have p: "''id'' \<notin> fst ` set (nproperties p)"
    and ps: "\<forall>p \<in> set ps. ''id'' \<notin> fst ` set (nproperties p)" by simp_all
  have "list_ex (matches p) (write_nodes ps (merge_node p ns))"
    using ps merge_node_has_match [OF p] by (rule write_nodes_keeps_match)
  moreover have "\<forall>q \<in> set ps. list_ex (matches q) (write_nodes ps (merge_node p ns))"
    using ps by (rule Cons.IH)
  ultimately show ?case by (simp add: write_nodes_Cons)
qed

text \<open>Where every node has a match already, writing the nodes only updates.\<close>

lemma write_nodes_when_saturated:
  "\<forall>p \<in> set ps. ''id'' \<notin> fst ` set (nproperties p) \<Longrightarrow>
   \<forall>p \<in> set ps. list_ex (matches p) ns \<Longrightarrow>
   write_nodes ps ns = map (upd_all ps) ns"
proof (induction ps arbitrary: ns)
  case Nil
  show ?case by (simp add: write_nodes_def upd_all_Nil)
next
  case (Cons p ps)
  from Cons.prems have p: "''id'' \<notin> fst ` set (nproperties p)"
    and ps: "\<forall>p \<in> set ps. ''id'' \<notin> fst ` set (nproperties p)" by simp_all
  from Cons.prems have step: "merge_node p ns = map (upd p) ns"
    by (simp add: merge_node_def)
  from Cons.prems have "\<forall>q \<in> set ps. list_ex (matches q) (map (upd p) ns)"
    by (auto simp: list_ex_iff matches_upd [OF p])
  with Cons.IH [OF ps] have "write_nodes ps (map (upd p) ns) = map (upd_all ps) (map (upd p) ns)"
    by blast
  then show ?case by (simp add: write_nodes_Cons step upd_all_Cons comp_def)
qed

text \<open>In general, writing the nodes updates the stored nodes and the nodes created on
  the way, each of which had no match in the store before.\<close>

lemma write_nodes_shape:
  "\<forall>p \<in> set ps. ''id'' \<notin> fst ` set (nproperties p) \<Longrightarrow>
   \<exists>cs. write_nodes ps ns = map (upd_all ps) (ns @ cs)
      \<and> (\<forall>c \<in> set cs. \<exists>q \<in> set ps. c = created q \<and> \<not> list_ex (matches q) ns)"
proof (induction ps arbitrary: ns)
  case Nil
  show ?case
    by (rule exI [of _ "[]"]) (simp add: write_nodes_def upd_all_Nil)
next
  case (Cons p ps)
  from Cons.prems have p: "''id'' \<notin> fst ` set (nproperties p)"
    and ps: "\<forall>p \<in> set ps. ''id'' \<notin> fst ` set (nproperties p)" by simp_all
  define c0 where "c0 = (if list_ex (matches p) ns then [] else [created p])"
  have step: "merge_node p ns = map (upd p) (ns @ c0)"
    by (simp add: merge_node_def c0_def)
  from Cons.IH [OF ps, of "merge_node p ns"] obtain cs
    where eq: "write_nodes ps (merge_node p ns) = map (upd_all ps) (merge_node p ns @ cs)"
      and new: "\<forall>c \<in> set cs. \<exists>q \<in> set ps. c = created q \<and> \<not> list_ex (matches q) (merge_node p ns)"
    by (elim exE conjE)
  have fixed: "upd p c = c" if "c \<in> set cs" for c
  proof -
    from new that have "\<exists>q \<in> set ps. c = created q \<and> \<not> list_ex (matches q) (merge_node p ns)"
      by (rule bspec)
    then obtain q where q: "c = created q" "\<not> list_ex (matches q) (merge_node p ns)"
      by (elim bexE conjE)
    have "\<not> (nlabel p = nlabel q \<and> nid p = nid q)"
    proof
      assume "nlabel p = nlabel q \<and> nid p = nid q"
      then have mq: "matches q = matches p" by (intro matches_same_key) simp_all
      from q(2) have "\<not> list_ex (matches p) (merge_node p ns)" unfolding mq .
      with merge_node_has_match [OF p, of ns] show False by (rule notE [rotated])
    qed
    then have "\<not> matches p c" by (simp add: q(1) matches_created)
    then show ?thesis by (simp add: upd_def)
  qed
  then have "map (upd p) cs = cs" by (intro map_idI)
  then have "merge_node p ns @ cs = map (upd p) (ns @ c0 @ cs)"
    by (simp add: step)
  with eq have shape: "write_nodes (p # ps) ns = map (upd_all (p # ps)) (ns @ (c0 @ cs))"
    by (simp add: write_nodes_Cons upd_all_Cons comp_def)
  have origin: "\<exists>q \<in> set (p # ps). c = created q \<and> \<not> list_ex (matches q) ns"
    if "c \<in> set (c0 @ cs)" for c
  proof (cases "c \<in> set c0")
    case True
    then have "c = created p" and "\<not> list_ex (matches p) ns"
      by (auto simp: c0_def split: if_splits)
    then show ?thesis by auto
  next
    case False
    with that have "c \<in> set cs" by simp
    with new have "\<exists>q \<in> set ps. c = created q \<and> \<not> list_ex (matches q) (merge_node p ns)"
      by (rule bspec)
    then obtain q where q: "q \<in> set ps" "c = created q"
      "\<not> list_ex (matches q) (merge_node p ns)" by (elim bexE conjE)
    from q(3) have "\<not> list_ex (matches q) ns"
      using merge_node_keeps_match [OF p, of q ns] by blast
    with q show ?thesis by auto
  qed
  show ?case
  proof (intro exI [of _ "c0 @ cs"] conjI ballI)
    show "write_nodes (p # ps) ns = map (upd_all (p # ps)) (ns @ c0 @ cs)" by (rule shape)
    show "\<exists>q \<in> set (p # ps). c = created q \<and> \<not> list_ex (matches q) ns"
      if "c \<in> set (c0 @ cs)" for c using that by (rule origin)
  qed
qed

text \<open>The updates of a stored node change its properties only, by the updates of the
  nodes that match it; applying them twice is applying them once.\<close>

lemma matching_updates_cong:
  "labels y = labels x \<Longrightarrow> properties y ''id'' = properties x ''id'' \<Longrightarrow>
   matching_updates ps y = matching_updates ps x"
  by (induction ps) (simp_all add: fun_eq_iff matches_def)

lemma upd_all_eq:
  "\<forall>p \<in> set ps. ''id'' \<notin> fst ` set (nproperties p) \<Longrightarrow>
   upd_all ps x = x\<lparr>properties := matching_updates ps x (properties x)\<rparr>"
proof (induction ps arbitrary: x)
  case Nil
  show ?case by (simp add: upd_all_def)
next
  case (Cons p ps)
  from Cons.prems have p: "''id'' \<notin> fst ` set (nproperties p)"
    and ps: "\<forall>p \<in> set ps. ''id'' \<notin> fst ` set (nproperties p)" by simp_all
  have same: "matching_updates ps (upd p x) = matching_updates ps x"
    by (rule matching_updates_cong) (simp_all add: upd_def set_props_other [OF p])
  have "upd_all (p # ps) x = (upd p x)\<lparr>properties := matching_updates ps x (properties (upd p x))\<rparr>"
    using Cons.IH [OF ps, of "upd p x"] by (simp add: upd_all_Cons same)
  then show ?case by (simp add: upd_def)
qed

lemma upd_all_idempotent:
  assumes "\<forall>p \<in> set ps. ''id'' \<notin> fst ` set (nproperties p)"
  shows "upd_all ps (upd_all ps x) = upd_all ps x"
proof -
  let ?f = "matching_updates ps x"
  let ?y = "x\<lparr>properties := ?f (properties x)\<rparr>"
  have id_kept: "?f (properties x) ''id'' = properties x ''id''"
  proof -
    have "matches q (upd_all ps x) = matches q x" for q
      using assms
    proof (induction ps arbitrary: x)
      case Nil
      show ?case by (simp add: upd_all_def)
    next
      case (Cons p ps)
      then show ?case by (simp add: upd_all_Cons matches_upd)
    qed
    have "properties (upd_all ps x) ''id'' = properties x ''id''"
      using assms
    proof (induction ps arbitrary: x)
      case Nil
      show ?case by (simp add: upd_all_def)
    next
      case (Cons p ps)
      then show ?case by (simp add: upd_all_Cons upd_def set_props_other)
    qed
    then show ?thesis by (simp add: upd_all_eq [OF assms])
  qed
  have "matching_updates ps ?y = ?f"
    by (rule matching_updates_cong) (simp_all add: id_kept)
  then have "upd_all ps ?y = x\<lparr>properties := ?f (?f (properties x))\<rparr>"
    by (simp add: upd_all_eq [OF assms, of ?y])
  also have "?f (?f (properties x)) = ?f (properties x)"
    by (rule overrides_idempotent) (rule overrides_matching_updates)
  finally show ?thesis by (simp add: upd_all_eq [OF assms, of x])
qed

lemma write_nodes_idempotent:
  assumes "\<forall>p \<in> set ps. ''id'' \<notin> fst ` set (nproperties p)"
  shows "write_nodes ps (write_nodes ps ns) = write_nodes ps ns"
proof -
  from write_nodes_shape [OF assms, of ns] obtain cs
    where shape: "write_nodes ps ns = map (upd_all ps) (ns @ cs)" by blast
  have "write_nodes ps (write_nodes ps ns) = map (upd_all ps) (write_nodes ps ns)"
    using assms write_nodes_saturated [OF assms] by (rule write_nodes_when_saturated)
  also have "\<dots> = map (upd_all ps) (map (upd_all ps) (ns @ cs))" by (simp only: shape)
  also have "\<dots> = map (upd_all ps) (ns @ cs)"
    by (simp add: upd_all_idempotent [OF assms] comp_def del: map_append)
  finally show ?thesis by (simp only: shape)
qed

subsection \<open>Writing the relationships\<close>

text \<open>A loop whose step makes sure that something is there: it keeps what is there, adds
  what it is asked for, and changes nothing if that is there already. Running such a loop
  a second time changes nothing.\<close>

lemma ensure_loop_keeps:
  assumes keeps: "\<And>s x y. has y s \<Longrightarrow> has y (f s x)"
  shows "has y s \<Longrightarrow> has y (foldl f s xs)"
  by (induction xs arbitrary: s) (simp_all add: keeps)

lemma ensure_loop_adds:
  assumes keeps: "\<And>s x y. has y s \<Longrightarrow> has y (f s x)"
    and adds: "\<And>s x. has x (f s x)"
  shows "\<forall>x \<in> set xs. has x (foldl f s xs)"
proof (induction xs arbitrary: s)
  case Nil
  show ?case by simp
next
  case (Cons a xs)
  have "has a (foldl f (f s a) xs)"
    using keeps adds [where s = s and x = a] by (rule ensure_loop_keeps)
  with Cons show ?case by simp
qed

lemma ensure_loop_unchanged:
  assumes same: "\<And>s x. has x s \<Longrightarrow> f s x = s"
  shows "\<forall>x \<in> set xs. has x s \<Longrightarrow> foldl f s xs = s"
  by (induction xs) (simp_all add: same)

lemma ensure_loop_twice:
  assumes keeps: "\<And>s x y. has y s \<Longrightarrow> has y (f s x)"
    and adds: "\<And>s x. has x (f s x)"
    and same: "\<And>s x. has x s \<Longrightarrow> f s x = s"
  shows "foldl f (foldl f s xs) xs = foldl f s xs"
proof -
  have "\<forall>x \<in> set xs. has x (foldl f s xs)"
    using keeps adds by (rule ensure_loop_adds)
  with same show ?thesis by (rule ensure_loop_unchanged)
qed

lemma merge_pair_plain:
  "rproperties r = [] \<Longrightarrow>
   merge_pair r es ab =
     (if list_ex (joins r ab) es then es
      else es @ [\<lparr>rel_from = fst ab, rel_kind_of = rtype r, rel_to = snd ab,
                  rel_properties = Map.empty\<rparr>])"
  by (simp add: merge_pair_def map_idI)

lemma merge_pair_keeps:
  "rproperties r = [] \<Longrightarrow> list_ex (joins r' ab') es \<Longrightarrow> list_ex (joins r' ab') (merge_pair r es ab)"
  by (simp add: merge_pair_plain list_ex_iff)

lemma merge_pair_adds: "rproperties r = [] \<Longrightarrow> list_ex (joins r ab) (merge_pair r es ab)"
  by (simp add: merge_pair_plain list_ex_iff joins_def)

lemma merge_pair_same:
  "rproperties r = [] \<Longrightarrow> list_ex (joins r ab) es \<Longrightarrow> merge_pair r es ab = es"
  by (simp add: merge_pair_plain)

text \<open>All pairs of endpoints of a relationship are joined.\<close>

lemma merge_rel_keeps:
  assumes "rproperties r = []"
  shows "list_ex (joins r' ab') es \<Longrightarrow> list_ex (joins r' ab') (merge_rel ns es r)"
  unfolding merge_rel_def
  by (rule ensure_loop_keeps [where has = "\<lambda>ab. list_ex (joins r' ab')" and y = ab'])
     (rule merge_pair_keeps [OF assms])

lemma merge_rel_adds:
  assumes "rproperties r = []"
  shows "\<forall>ab \<in> set (endpoint_pairs ns r). list_ex (joins r ab) (merge_rel ns es r)"
  unfolding merge_rel_def
  by (rule ensure_loop_adds [where has = "\<lambda>ab. list_ex (joins r ab)"])
     (simp_all add: merge_pair_keeps [OF assms] merge_pair_adds [OF assms])

lemma merge_rel_same:
  assumes "rproperties r = []"
  shows "\<forall>ab \<in> set (endpoint_pairs ns r). list_ex (joins r ab) es \<Longrightarrow> merge_rel ns es r = es"
  unfolding merge_rel_def
  by (rule ensure_loop_unchanged [where has = "\<lambda>ab. list_ex (joins r ab)"])
     (simp_all add: merge_pair_same [OF assms])

lemma write_rels_idempotent:
  assumes plain: "\<forall>r \<in> set rs. rproperties r = []"
  shows "write_rels rs ns (write_rels rs ns es) = write_rels rs ns es"
proof -
  let ?has = "\<lambda>r es. rproperties r = [] \<longrightarrow>
      (\<forall>ab \<in> set (endpoint_pairs ns r). list_ex (joins r ab) es)"
  let ?f = "\<lambda>es r. if rproperties r = [] then merge_rel ns es r else es"
  have keeps: "?has y (?f s x)" if "?has y s" for s x y
    using that by (auto simp: merge_rel_keeps)
  have adds: "?has x (?f s x)" for s x
    using merge_rel_adds [of x ns s] by auto
  have same: "?f s x = s" if "?has x s" for s x
    using that by (auto simp: merge_rel_same)
  have loop: "foldl (merge_rel ns) s rs = foldl ?f s rs" for s
    using plain by (induction rs arbitrary: s) simp_all
  have "foldl ?f (foldl ?f es rs) rs = foldl ?f es rs"
    using keeps adds same by (rule ensure_loop_twice [where has = ?has])
  then show ?thesis by (simp add: write_rels_def loop)
qed

subsection \<open>Loading twice\<close>

lemma graph_obj_nodes_no_id:
  "\<forall>p \<in> set (gnodes (graph_obj data)). ''id'' \<notin> fst ` set (nproperties p)"
  by (auto simp: graph_obj_def)

lemma graph_obj_rels_plain:
  "\<forall>r \<in> set (grelationships (graph_obj data)). rproperties r = []"
  by (auto simp: graph_obj_def)

lemma load_eq:
  "load data s =
     \<lparr>store_nodes = write_nodes (gnodes (graph_obj data)) (store_nodes s),
      store_rels = write_rels (grelationships (graph_obj data))
                     (write_nodes (gnodes (graph_obj data)) (store_nodes s)) (store_rels s)\<rparr>"
  by (simp add: load_def run_def Let_def)

text \<open>
  C7. Loading a consolidated graph into a store that already holds the result of loading
  it gives the same store: the same stored nodes with the same labels and properties and
  the same stored relationships. So the second load changes no count and creates no node
  and no relationship. This holds for every consolidated graph and every store to begin
  with.
\<close>

theorem load_twice_same_store:
  "load data (load data s) = load data s
   \<and> length (store_nodes (load data (load data s))) = length (store_nodes (load data s))
   \<and> length (store_rels (load data (load data s))) = length (store_rels (load data s))
   \<and> count_nodes (load data (load data s)) l i = count_nodes (load data s) l i
   \<and> count_rels (load data (load data s)) t a b = count_rels (load data s) t a b"
proof -
  let ?ps = "gnodes (graph_obj data)"
  let ?rs = "grelationships (graph_obj data)"
  let ?ns = "write_nodes ?ps (store_nodes s)"
  let ?es = "write_rels ?rs ?ns (store_rels s)"
  have nodes: "write_nodes ?ps ?ns = ?ns"
    using graph_obj_nodes_no_id by (rule write_nodes_idempotent)
  have rels: "write_rels ?rs ?ns ?es = ?es"
    using graph_obj_rels_plain by (rule write_rels_idempotent)
  have "load data (load data s) = load data s"
    by (simp add: load_eq nodes rels)
  then show ?thesis by simp
qed

theorem load_twice_same_store_witness:
  "load (merge_graphs acme_batches) (load (merge_graphs acme_batches) empty_store) =
     load (merge_graphs acme_batches) empty_store
   \<and> length (store_nodes (load (merge_graphs acme_batches) empty_store)) = 2
   \<and> length (store_rels (load (merge_graphs acme_batches) empty_store)) = 1
   \<and> length (store_nodes (load (merge_graphs acme_batches)
        (load (merge_graphs acme_batches) empty_store))) = 2
   \<and> length (store_rels (load (merge_graphs acme_batches)
        (load (merge_graphs acme_batches) empty_store))) = 1
   \<and> count_nodes (load (merge_graphs acme_batches)
        (load (merge_graphs acme_batches) empty_store)) ''Company'' ''Company_acme'' = 1"
proof -
  let ?g = "merge_graphs acme_batches"
  note t = load_twice_same_store [of ?g empty_store "''Company''" "''Company_acme''"]
  from t have eq: "load ?g (load ?g empty_store) = load ?g empty_store" by (rule conjunct1)
  have n: "length (store_nodes (load ?g empty_store)) = 2" by code_simp
  have r: "length (store_rels (load ?g empty_store)) = 1" by code_simp
  have c: "count_nodes (load ?g empty_store) ''Company'' ''Company_acme'' = 1" by code_simp
  from eq n r c show ?thesis by simp
qed

end
